theory Spec2Isabelle
  imports Complex_Main "HOL-Library.Word" "HOL-Library.Multiset" "HOL-Library.AList"
    "HOL-Library.Char_ord" "HOL-Library.List_Lexorder"
begin

section \<open>The model\<close>

text \<open>
  The model follows the Go package \<open>graylog\<close>: the chunked send path of the UDP transport
  (\<open>numChunks\<close>, \<open>udpTransport.writeChunked\<close>), the JSON methods of \<open>Message\<close>
  (\<open>MarshalJSON\<close>, \<open>UnmarshalJSON\<close>) and the two transports
  (\<open>udpTransport.WriteMessage\<close>, \<open>httpTransport.WriteMessage\<close>).

  A Go function returns, possibly with an \<open>error\<close> value, or panics. Both are values of the
  model: \<open>Return\<close> carries what the function returns, \<open>Panic\<close> the run-time panic that
  unwinds it. An \<open>error\<close> that may be \<open>nil\<close> is an \<open>error option\<close>.
\<close>

subsection \<open>Outcomes, errors and bytes\<close>

type_synonym byte = "8 word"

text \<open>
  The run-time panics of the code: an index expression out of range (\<open>k[0]\<close>,
  \<open>b[len(b)-1]\<close>), a slice expression out of range, a failed type assertion \<open>v.(T)\<close> (with
  the name of \<open>T\<close>), a method call through a \<open>nil\<close> pointer, and the explicit
  \<open>panic("unknown compression type ...")\<close> of \<open>WriteMessage\<close>.
\<close>

datatype go_panic =
    IndexOutOfRange
  | SliceBoundsOutOfRange
  | InterfaceConversion string
  | NilPointerDereference
  | UnknownCompressionType int

text \<open>
  The errors: one constructor for each \<open>fmt.Errorf\<close> of the code, with the numbers it
  prints (\<open>MsgTooLarge\<close>: "msg too large, would need %d chunks"; \<open>RandReaderError\<close>:
  "rand.Reader: %d/%s"; \<open>WriteChunkError\<close>: "Write (chunk %d/%d): %s"; \<open>WriteLenError\<close>:
  "Write len: (chunk %d/%d) (%d/%d)"; \<open>BytesLeftError\<close>: "error: %d bytes left after
  sending"; \<open>BadWrite\<close>: "bad write (%d/%d)"), and the errors that the libraries return and
  the code passes on: \<open>LibraryError\<close> with its text (\<open>net\<close>, \<open>net/http\<close>, the compressors),
  and from \<open>encoding/json\<close> a value that cannot be encoded, a syntax error and a JSON value
  of the wrong type for its target.
\<close>

datatype error =
    LibraryError string
  | MsgTooLarge nat
  | RandReaderError nat "string option"
  | WriteChunkError byte byte string
  | WriteLenError byte byte nat nat
  | BytesLeftError int
  | BadWrite nat nat
  | UnsupportedValue string
  | SyntaxError
  | UnmarshalTypeError

datatype 'a outcome = Return 'a | Panic go_panic

subsection \<open>Chunking constants and \<open>numChunks\<close>\<close>

definition ChunkSize :: nat where
  "ChunkSize = 1420"

definition chunkedHeaderLen :: nat where
  "chunkedHeaderLen = 12"

definition chunkedDataLen :: nat where
  "chunkedDataLen = ChunkSize - chunkedHeaderLen"

definition magicChunked :: "byte list" where
  "magicChunked = [0x1e, 0x0f]"

text \<open>
  \<open>numChunks\<close>: lengths are non-negative Go ints, on which Go's truncating division is
  \<open>div\<close> on \<open>nat\<close>.
\<close>

definition numChunks :: "byte list \<Rightarrow> nat" where
  "numChunks b =
     (let lenB = length b
      in if lenB \<le> ChunkSize then 1 else length b div chunkedDataLen + 1)"

subsection \<open>The connection and the random source\<close>

text \<open>
  \<open>net.Conn.Write\<close> is the environment. The wire is the list of buffers handed to \<open>Write\<close>,
  oldest first; a connection is the function that decides, from the earlier writes and the
  buffer, the pair \<open>(n, err)\<close> that \<open>Write\<close> returns.
\<close>

type_synonym wire = "byte list list"

type_synonym conn = "wire \<Rightarrow> byte list \<Rightarrow> nat \<times> string option"

text \<open>
  \<open>io.ReadFull(rand.Reader, msgId)\<close> on the 8-byte buffer \<open>msgId\<close>: the bytes it leaves in
  the buffer, and the pair \<open>(n, err)\<close> it returns.
\<close>

record rand_reader =
  rand_byte :: "nat \<Rightarrow> byte"
  rand_n :: nat
  rand_err :: "string option"

definition io_ReadFull :: "rand_reader \<Rightarrow> nat \<Rightarrow> byte list \<times> nat \<times> string option" where
  "io_ReadFull r len = (map (rand_byte r) [0..<len], rand_n r, rand_err r)"

text \<open>
  The slice expression \<open>s[lo:hi]\<close> panics unless \<open>0 \<le> lo \<le> hi \<le> cap(s)\<close>; the capacity of
  the compressed buffer is not known, so the model takes the length as the bound.
\<close>

definition go_slice :: "'a list \<Rightarrow> int \<Rightarrow> int \<Rightarrow> 'a list option" where
  "go_slice s lo hi =
     (if 0 \<le> lo \<and> lo \<le> hi \<and> hi \<le> int (length s)
      then Some (take (nat (hi - lo)) (drop (nat lo) s)) else None)"

subsection \<open>\<open>udpTransport.writeChunked\<close>\<close>

text \<open>
  The loop \<open>for i := uint8(0); i < nChunks; i++\<close> with its state \<open>bytesLeft\<close> and the wire.
  \<open>i\<close> and \<open>nChunks\<close> are \<open>uint8\<close>, \<open>bytesLeft\<close>, \<open>chunkLen\<close> and \<open>off\<close> are \<open>int\<close>.
\<close>

function chunk_loop ::
  "conn \<Rightarrow> byte list \<Rightarrow> byte list \<Rightarrow> byte \<Rightarrow> byte \<Rightarrow> int \<Rightarrow> wire
     \<Rightarrow> error option outcome \<times> wire" where
  "chunk_loop c zBytes msgId nChunks i bytesLeft w =
     (if i < nChunks then
        (let hdr = magicChunked @ msgId @ [i] @ [nChunks];
             chunkLen = (if int chunkedDataLen > bytesLeft then bytesLeft else int chunkedDataLen);
             off = int (unat i) * int chunkedDataLen
         in case go_slice zBytes off (off + chunkLen) of
              None \<Rightarrow> (Panic SliceBoundsOutOfRange, w)
            | Some chunk \<Rightarrow>
                (let buf = hdr @ chunk;
                     r = c w buf;
                     w' = w @ [buf]
                 in case snd r of
                      Some e \<Rightarrow> (Return (Some (WriteChunkError i nChunks e)), w')
                    | None \<Rightarrow>
                        if fst r \<noteq> length buf
                        then (Return (Some (WriteLenError i nChunks (fst r) (length buf))), w')
                        else chunk_loop c zBytes msgId nChunks (i + 1) (bytesLeft - chunkLen) w'))
      else if bytesLeft \<noteq> 0 then (Return (Some (BytesLeftError bytesLeft)), w)
      else (Return None, w))"
  by pat_completeness auto
termination
proof (relation "measure (\<lambda>(c, zBytes, msgId, nChunks, i, bytesLeft, w). unat nChunks - unat i)")
  show "wf (measure (\<lambda>(c, zBytes, msgId, nChunks, i, bytesLeft, w). unat nChunks - unat i))"
    by simp
next
  fix c :: conn and zBytes msgId :: "byte list" and nChunks i :: byte and bytesLeft :: int
    and w :: wire and x xa xb x2 xc xd xe
  assume lt: "i < nChunks"
  have less: "unat i < unat nChunks"
    using lt by (simp add: word_less_nat_alt)
  moreover have "unat nChunks < 256"
    using unsigned_less [of nChunks, where ?'a = nat] by simp
  ultimately have "unat (i + 1) = Suc (unat i)"
    by (simp add: unat_word_ariths)
  with less show
    "((c, zBytes, msgId, nChunks, i + 1, bytesLeft - xa, xe),
      (c, zBytes, msgId, nChunks, i, bytesLeft, w))
     \<in> measure (\<lambda>(c, zBytes, msgId, nChunks, i, bytesLeft, w). unat nChunks - unat i)"
    by simp
qed

declare chunk_loop.simps [simp del]

text \<open>
  The test \<open>err != nil || n != 8\<close> is written as the two tests it short-circuits into.
\<close>

definition writeChunked ::
  "conn \<Rightarrow> rand_reader \<Rightarrow> byte list \<Rightarrow> wire \<Rightarrow> error option outcome \<times> wire" where
  "writeChunked c rnd zBytes w =
     (let nChunksI = numChunks zBytes
      in if nChunksI > 255 then (Return (Some (MsgTooLarge nChunksI)), w)
         else
           (let nChunks = (of_nat nChunksI :: byte);
                rd = io_ReadFull rnd 8;
                msgId = fst rd;
                n = fst (snd rd);
                err = snd (snd rd)
            in if err \<noteq> None then (Return (Some (RandReaderError n err)), w)
               else if n \<noteq> 8 then (Return (Some (RandReaderError n err)), w)
               else chunk_loop c zBytes msgId nChunks 0 (int (length zBytes)) w))"

subsection \<open>Go values\<close>

text \<open>
  A \<open>float64\<close> is a rational number, a NaN or an infinity. Every finite \<open>float64\<close> is a
  rational; the model does not restrict the rationals to those with a 53-bit mantissa, so a
  statement about all values of the type holds of every \<open>float64\<close>.
\<close>

datatype float64 = Finite rat | NaN | PosInf | NegInf

text \<open>
  The dynamic values of \<open>interface{}\<close>: the six kinds \<open>json.Unmarshal\<close> stores into an
  \<open>interface{}\<close> (\<open>nil\<close>, \<open>bool\<close>, \<open>float64\<close>, \<open>string\<close>, \<open>[]interface{}\<close>,
  \<open>map[string]interface{}\<close>) and, for the values \<open>json.Marshal\<close> refuses, a channel. A Go map
  is the list of its entries, with distinct keys.
\<close>

datatype go_value =
    GoNil
  | GoBool bool
  | GoFloat64 float64
  | GoString string
  | GoSlice "go_value list"
  | GoMap "(string \<times> go_value) list"
  | GoChan

text \<open>
  \<open>Message\<close>: \<open>Level\<close> is an \<open>int32\<close> and \<open>Line\<close> an \<open>int\<close> (64 bits), both read with
  \<open>sint\<close>. \<open>Extra\<close> is a Go map; the empty list stands for the \<open>nil\<close> map and for the empty
  map, which the code does not tell apart (\<open>len(extra) == 0\<close>, and a \<open>nil\<close> map is made
  before the first store).
\<close>

record Message =
  Version :: string
  Host :: string
  Short :: string
  Full :: string
  TimeUnix :: float64
  Level :: "32 word"
  Facility :: string
  File :: string
  Line :: "64 word"
  Extra :: "(string \<times> go_value) list"

subsection \<open>Conversions between integers and \<open>float64\<close>\<close>

text \<open>
  The conversions \<open>int32(f)\<close> and \<open>int(f)\<close> of a \<open>float64\<close> drop the fraction (truncation
  towards zero). When the truncated value does not fit the integer type, or \<open>f\<close> is not
  finite, the Go result is implementation-dependent; the model wraps around for a finite
  value and answers the least integer otherwise, and no statement below depends on either.
\<close>

definition go_trunc :: "rat \<Rightarrow> int" where
  "go_trunc q = (if 0 \<le> q then \<lfloor>q\<rfloor> else \<lceil>q\<rceil>)"

definition int32_of_float64 :: "float64 \<Rightarrow> 32 word" where
  "int32_of_float64 f = (case f of Finite q \<Rightarrow> word_of_int (go_trunc q) | _ \<Rightarrow> 0x80000000)"

definition int_of_float64 :: "float64 \<Rightarrow> 64 word" where
  "int_of_float64 f =
     (case f of Finite q \<Rightarrow> word_of_int (go_trunc q) | _ \<Rightarrow> 0x8000000000000000)"

text \<open>
  The \<open>float64\<close> nearest to an integer: the integer itself when it has at most 53
  significant bits, else the integer rounded to 53 significant bits, a tie going to the
  even mantissa. This is what the decoder's \<open>strconv.ParseFloat\<close> answers for the decimal
  text of an integer.
\<close>

fun bit_length :: "nat \<Rightarrow> nat" where
  "bit_length n = (if n = 0 then 0 else Suc (bit_length (n div 2)))"

declare bit_length.simps [simp del]

definition round_to_53_bits :: "int \<Rightarrow> int" where
  "round_to_53_bits n =
     (let a = nat \<bar>n\<bar>
      in if a < 2 ^ 53 then n
         else
           (let k = bit_length a - 53;
                q = a div 2 ^ k;
                r = a mod 2 ^ k;
                half = 2 ^ (k - 1);
                q' = (if r > half then q + 1 else if r = half \<and> odd q then q + 1 else q)
            in sgn n * int (q' * 2 ^ k)))"

definition float64_of_int :: "int \<Rightarrow> float64" where
  "float64_of_int n = Finite (of_int (round_to_53_bits n))"

subsection \<open>JSON text\<close>

text \<open>
  The package \<open>encoding/json\<close> belongs to the Go library, not to the repository; the model
  follows its documentation. The text that it writes and reads is a list of tokens. The structural
  bytes of an object are tokens of their own, one byte each: \<open>{\<close>, \<open>}\<close>, \<open>,\<close> and \<open>:\<close>. The
  text of a member's key and the text of a member's value are one token each, and stand
  for the string and the value that \<open>json.Unmarshal\<close> decodes from them: string escaping and
  number formatting, which the package \<open>encoding/json\<close> does and the repository does not,
  are not modelled. Strings are taken to hold valid UTF-8, which the package writes and
  reads back unchanged.
\<close>

datatype json_token = LBrace | RBrace | Comma | Colon | Key string | Val go_value

type_synonym json = "json_token list"

fun json_members :: "(string \<times> go_value) list \<Rightarrow> json" where
  "json_members [] = []"
| "json_members [(k, v)] = [Key k, Colon, Val v]"
| "json_members ((k, v) # kvs) = Key k # Colon # Val v # Comma # json_members kvs"

definition json_object :: "(string \<times> go_value) list \<Rightarrow> json" where
  "json_object kvs = LBrace # json_members kvs @ [RBrace]"

subsection \<open>\<open>json.Marshal\<close> of the struct and of the extension map\<close>

text \<open>
  \<open>json.Marshal\<close> refuses a channel and a \<open>float64\<close> that is not finite, at any depth.
\<close>

fun marshalable :: "go_value \<Rightarrow> bool" where
  "marshalable GoNil = True"
| "marshalable (GoBool b) = True"
| "marshalable (GoFloat64 f) = (case f of Finite q \<Rightarrow> True | _ \<Rightarrow> False)"
| "marshalable (GoString s) = True"
| "marshalable (GoSlice vs) = list_all marshalable vs"
| "marshalable (GoMap kvs) = list_all marshalable (map snd kvs)"
| "marshalable GoChan = False"

text \<open>
  The members of \<open>innerMessage\<close>, by its field tags and in the order of its fields;
  \<open>Extra\<close> is tagged \<open>"-"\<close> and left out. An integer field is written in decimal, and its
  value token carries the \<open>float64\<close> that this text decodes to.
\<close>

definition innerMessage_members :: "Message \<Rightarrow> (string \<times> go_value) list" where
  "innerMessage_members m =
     [(''version'', GoString (Version m)),
      (''host'', GoString (Host m)),
      (''short_message'', GoString (Short m)),
      (''full_message'', GoString (Full m)),
      (''timestamp'', GoFloat64 (TimeUnix m)),
      (''level'', GoFloat64 (float64_of_int (sint (Level m)))),
      (''facility'', GoString (Facility m)),
      (''file'', GoString (File m)),
      (''line'', GoFloat64 (float64_of_int (sint (Line m))))]"

definition marshal_innerMessage :: "Message \<Rightarrow> error + json" where
  "marshal_innerMessage m =
     (case TimeUnix m of
        Finite q \<Rightarrow> Inr (json_object (innerMessage_members m))
      | _ \<Rightarrow> Inl (UnsupportedValue ''float64''))"

text \<open>\<open>json.Marshal\<close> of a \<open>map[string]interface{}\<close> writes the entries sorted by key.\<close>

definition marshal_map :: "(string \<times> go_value) list \<Rightarrow> error + json" where
  "marshal_map kvs =
     (if list_all marshalable (map snd kvs) then Inr (json_object (sort_key fst kvs))
      else Inl (UnsupportedValue ''interface''))"

subsection \<open>\<open>Message.MarshalJSON\<close>\<close>

text \<open>
  \<open>b[len(b)-1] = ','\<close> overwrites the last byte of \<open>b\<close> and panics on an empty \<open>b\<close>;
  \<open>eb[1:len(eb)]\<close> panics on an empty \<open>eb\<close>.
\<close>

definition MarshalJSON :: "Message \<Rightarrow> (error + json) outcome" where
  "MarshalJSON m =
     (let extra = Extra m
      in case marshal_innerMessage m of
           Inl err \<Rightarrow> Return (Inl err)
         | Inr b \<Rightarrow>
             if length extra = 0 then Return (Inr b)
             else
               (case marshal_map extra of
                  Inl err \<Rightarrow> Return (Inl err)
                | Inr eb \<Rightarrow>
                    if length b = 0 then Panic IndexOutOfRange
                    else
                      (case go_slice eb 1 (int (length eb)) of
                         None \<Rightarrow> Panic SliceBoundsOutOfRange
                       | Some rest \<Rightarrow> Return (Inr (b[length b - 1 := Comma] @ rest)))))"

subsection \<open>\<open>json.Unmarshal\<close> into a \<open>map[string]interface{}\<close>\<close>

fun parse_members :: "json \<Rightarrow> (string \<times> go_value) list option" where
  "parse_members [Key k, Colon, Val v, RBrace] = Some [(k, v)]"
| "parse_members (Key k # Colon # Val v # Comma # rest) =
     (case parse_members rest of None \<Rightarrow> None | Some kvs \<Rightarrow> Some ((k, v) # kvs))"
| "parse_members _ = None"

definition parse_object :: "json \<Rightarrow> (string \<times> go_value) list option" where
  "parse_object ts =
     (case ts of
        LBrace # rest \<Rightarrow> (if rest = [RBrace] then Some [] else parse_members rest)
      | _ \<Rightarrow> None)"

text \<open>
  The members are stored into the map one after the other, so that of two members with one
  key the later one stays.
\<close>

definition store_members :: "(string \<times> go_value) list \<Rightarrow> (string \<times> go_value) list" where
  "store_members kvs = foldl (\<lambda>i kv. AList.update (fst kv) (snd kv) i) [] kvs"

text \<open>
  A text that is one value token is a JSON value that is not written out as an object:
  \<open>null\<close> leaves the map empty, a value that is an object fills it, any other value is a
  type error. Everything else must be the text of an object.
\<close>

definition json_Unmarshal :: "json \<Rightarrow> error + (string \<times> go_value) list" where
  "json_Unmarshal data =
     (case data of
        [Val v] \<Rightarrow>
          (case v of
             GoNil \<Rightarrow> Inr []
           | GoMap kvs \<Rightarrow> Inr (store_members kvs)
           | _ \<Rightarrow> Inl UnmarshalTypeError)
      | _ \<Rightarrow>
          (case parse_object data of
             None \<Rightarrow> Inl SyntaxError
           | Some kvs \<Rightarrow> Inr (store_members kvs)))"

subsection \<open>\<open>Message.UnmarshalJSON\<close>\<close>

text \<open>
  The body of the loop \<open>for k, v := range i\<close> for one entry. \<open>k[0]\<close> panics on the empty
  key; a type assertion \<open>v.(string)\<close> or \<open>v.(float64)\<close> panics on a value of another type;
  the \<open>switch\<close> has no default, so any other key is skipped.
\<close>

definition assert_string :: "go_value \<Rightarrow> string outcome" where
  "assert_string v = (case v of GoString s \<Rightarrow> Return s | _ \<Rightarrow> Panic (InterfaceConversion ''string''))"

definition assert_float64 :: "go_value \<Rightarrow> float64 outcome" where
  "assert_float64 v =
     (case v of GoFloat64 f \<Rightarrow> Return f | _ \<Rightarrow> Panic (InterfaceConversion ''float64''))"

definition range_body :: "Message \<Rightarrow> string \<Rightarrow> go_value \<Rightarrow> Message outcome" where
  "range_body m k v =
     (case k of
        [] \<Rightarrow> Panic IndexOutOfRange
      | c # cs \<Rightarrow>
          if c = CHR ''_'' then Return (m\<lparr>Extra := AList.update k v (Extra m)\<rparr>)
          else if k = ''version'' then
            (case assert_string v of Panic p \<Rightarrow> Panic p | Return s \<Rightarrow> Return (m\<lparr>Version := s\<rparr>))
          else if k = ''host'' then
            (case assert_string v of Panic p \<Rightarrow> Panic p | Return s \<Rightarrow> Return (m\<lparr>Host := s\<rparr>))
          else if k = ''short_message'' then
            (case assert_string v of Panic p \<Rightarrow> Panic p | Return s \<Rightarrow> Return (m\<lparr>Short := s\<rparr>))
          else if k = ''full_message'' then
            (case assert_string v of Panic p \<Rightarrow> Panic p | Return s \<Rightarrow> Return (m\<lparr>Full := s\<rparr>))
          else if k = ''timestamp'' then
            (case assert_float64 v of Panic p \<Rightarrow> Panic p
             | Return f \<Rightarrow> Return (m\<lparr>TimeUnix := f\<rparr>))
          else if k = ''level'' then
            (case assert_float64 v of Panic p \<Rightarrow> Panic p
             | Return f \<Rightarrow> Return (m\<lparr>Level := int32_of_float64 f\<rparr>))
          else if k = ''facility'' then
            (case assert_string v of Panic p \<Rightarrow> Panic p | Return s \<Rightarrow> Return (m\<lparr>Facility := s\<rparr>))
          else if k = ''file'' then
            (case assert_string v of Panic p \<Rightarrow> Panic p | Return s \<Rightarrow> Return (m\<lparr>File := s\<rparr>))
          else if k = ''line'' then
            (case assert_float64 v of Panic p \<Rightarrow> Panic p
             | Return f \<Rightarrow> Return (m\<lparr>Line := int_of_float64 f\<rparr>))
          else Return m)"

fun range_loop :: "Message \<Rightarrow> (string \<times> go_value) list \<Rightarrow> Message outcome" where
  "range_loop m [] = Return m"
| "range_loop m ((k, v) # kvs) =
     (case range_body m k v of Panic p \<Rightarrow> Panic p | Return m' \<Rightarrow> range_loop m' kvs)"

text \<open>
  Go does not fix the order in which \<open>range\<close> visits a map. The order is an argument of the
  model: \<open>order\<close> lists the entries of the map as the loop will visit them, and the
  statements below hold for every \<open>order\<close> that permutes the entries.

  \<open>UnmarshalJSON\<close> returns its error and leaves the decoded fields in the receiver \<open>m\<close>.
\<close>

type_synonym range_order = "(string \<times> go_value) list \<Rightarrow> (string \<times> go_value) list"

definition UnmarshalJSON ::
  "range_order \<Rightarrow> Message \<Rightarrow> json \<Rightarrow> (error option \<times> Message) outcome" where
  "UnmarshalJSON order m data =
     (case json_Unmarshal data of
        Inl err \<Rightarrow> Return (Some err, m)
      | Inr i \<Rightarrow>
          (case range_loop m (order i) of
             Panic p \<Rightarrow> Panic p
           | Return m' \<Rightarrow> Return (None, m')))"

subsection \<open>The fixed fields by their JSON names\<close>

text \<open>
  The fixed fields of a message, read by their JSON names, and the value a field takes
  when the loop body stores a decoded value into it.
\<close>

datatype field_value = FString string | FFloat64 float64 | FInt32 "32 word" | FInt "64 word"

definition fixed_keys :: "string list" where
  "fixed_keys = [''version'', ''host'', ''short_message'', ''full_message'', ''timestamp'',
     ''level'', ''facility'', ''file'', ''line'']"

definition field :: "string \<Rightarrow> Message \<Rightarrow> field_value" where
  "field k m =
     (if k = ''version'' then FString (Version m)
      else if k = ''host'' then FString (Host m)
      else if k = ''short_message'' then FString (Short m)
      else if k = ''full_message'' then FString (Full m)
      else if k = ''timestamp'' then FFloat64 (TimeUnix m)
      else if k = ''level'' then FInt32 (Level m)
      else if k = ''facility'' then FString (Facility m)
      else if k = ''file'' then FString (File m)
      else if k = ''line'' then FInt (Line m)
      else FString [])"

definition stored :: "string \<Rightarrow> go_value \<Rightarrow> field_value option" where
  "stored k v =
     (if k = ''timestamp'' then (case v of GoFloat64 f \<Rightarrow> Some (FFloat64 f) | _ \<Rightarrow> None)
      else if k = ''level'' then
        (case v of GoFloat64 f \<Rightarrow> Some (FInt32 (int32_of_float64 f)) | _ \<Rightarrow> None)
      else if k = ''line'' then
        (case v of GoFloat64 f \<Rightarrow> Some (FInt (int_of_float64 f)) | _ \<Rightarrow> None)
      else (case v of GoString s \<Rightarrow> Some (FString s) | _ \<Rightarrow> None))"

subsection \<open>\<open>json.Marshal\<close> of a message\<close>

text \<open>
  \<open>json.Marshal(m)\<close> calls \<open>m.MarshalJSON()\<close>, checks that what it returned is valid JSON
  and writes it out. \<open>render\<close> is the text of a token list as bytes: the part of
  \<open>encoding/json\<close> that the token model leaves out.
\<close>

type_synonym render = "json \<Rightarrow> byte list"

definition json_Marshal :: "render \<Rightarrow> Message \<Rightarrow> (error + byte list) outcome" where
  "json_Marshal render m =
     (case MarshalJSON m of
        Panic p \<Rightarrow> Panic p
      | Return (Inl err) \<Rightarrow> Return (Inl err)
      | Return (Inr ts) \<Rightarrow>
          (case parse_object ts of
             None \<Rightarrow> Return (Inl SyntaxError)
           | Some kvs \<Rightarrow> Return (Inr (render ts))))"

subsection \<open>\<open>udpTransport.WriteMessage\<close>\<close>

text \<open>
  \<open>CompressType\<close> is an \<open>int\<close> with three named values. The transport reads the type and
  the level through two functions of the writer; the model holds the values they return.
\<close>

definition CompressGzip :: int where
  "CompressGzip = 0"

definition CompressZlib :: int where
  "CompressZlib = 1"

definition NoCompress :: int where
  "NoCompress = 2"

record udpTransport =
  conn :: conn
  compressionType :: int
  compressionLevel :: int

text \<open>
  A compressor of \<open>compress/gzip\<close> or \<open>compress/zlib\<close>, from the level and the input: the
  error of \<open>NewWriterLevel\<close> or of \<open>Write\<close>, or the bytes in \<open>zBuf\<close> after \<open>Close\<close>.
\<close>

type_synonym compressor = "int \<Rightarrow> byte list \<Rightarrow> error + byte list"

definition compress_stage ::
  "compressor \<Rightarrow> compressor \<Rightarrow> int \<Rightarrow> int \<Rightarrow> byte list \<Rightarrow> (error + byte list) outcome" where
  "compress_stage gzip zlib t level mBytes =
     (if t = CompressGzip then Return (gzip level mBytes)
      else if t = CompressZlib then Return (zlib level mBytes)
      else if t = NoCompress then Return (Inr mBytes)
      else Panic (UnknownCompressionType t))"

definition udp_WriteMessage ::
  "render \<Rightarrow> compressor \<Rightarrow> compressor \<Rightarrow> rand_reader \<Rightarrow> udpTransport \<Rightarrow> Message \<Rightarrow> wire
     \<Rightarrow> error option outcome \<times> wire" where
  "udp_WriteMessage render gzip zlib rnd w m wire0 =
     (case json_Marshal render m of
        Panic p \<Rightarrow> (Panic p, wire0)
      | Return (Inl err) \<Rightarrow> (Return (Some err), wire0)
      | Return (Inr mBytes) \<Rightarrow>
          (case compress_stage gzip zlib (compressionType w) (compressionLevel w) mBytes of
             Panic p \<Rightarrow> (Panic p, wire0)
           | Return (Inl err) \<Rightarrow> (Return (Some err), wire0)
           | Return (Inr zBytes) \<Rightarrow>
               if numChunks zBytes > 1 then writeChunked (conn w) rnd zBytes wire0
               else
                 (let r = conn w wire0 zBytes;
                      wire1 = wire0 @ [zBytes]
                  in case snd r of
                       Some e \<Rightarrow> (Return (Some (LibraryError e)), wire1)
                     | None \<Rightarrow>
                         if fst r \<noteq> length zBytes
                         then (Return (Some (BadWrite (fst r) (length zBytes))), wire1)
                         else (Return None, wire1))))"

subsection \<open>\<open>httpTransport.WriteMessage\<close>\<close>

text \<open>
  \<open>client.Post\<close> is the environment: from the URL and the body, the pair
  \<open>(response, err)\<close>, where a response is named by a number and \<open>None\<close> is the \<open>nil\<close>
  response. The trace lists the requests made and the response bodies closed.
\<close>

datatype http_event = PostRequest string "byte list" | BodyClose nat

type_synonym http_client = "string \<Rightarrow> byte list \<Rightarrow> nat option \<times> string option"

record httpTransport =
  client :: http_client
  url :: string

text \<open>
  \<open>response.Body.Close()\<close> follows the call of \<open>Post\<close> without a test of \<open>err\<close> or of
  \<open>response\<close>: on a \<open>nil\<close> response it is a nil pointer dereference.
\<close>

definition http_WriteMessage ::
  "render \<Rightarrow> httpTransport \<Rightarrow> Message \<Rightarrow> http_event list
     \<Rightarrow> error option outcome \<times> http_event list" where
  "http_WriteMessage render w m tr =
     (case json_Marshal render m of
        Panic p \<Rightarrow> (Panic p, tr)
      | Return (Inl err) \<Rightarrow> (Return (Some err), tr)
      | Return (Inr mBytes) \<Rightarrow>
          (let r = client w (url w) mBytes;
               tr1 = tr @ [PostRequest (url w) mBytes]
           in case fst r of
                None \<Rightarrow> (Panic NilPointerDereference, tr1)
              | Some response \<Rightarrow>
                  (Return (map_option LibraryError (snd r)), tr1 @ [BodyClose response])))"

text \<open>
  The sources hold a second copy of \<open>httpTransport.WriteMessage\<close> (after \<open>Writer\<close>), which
  drops the response: \<open>_, err = w.client.Post(...)\<close>.
\<close>

definition http_WriteMessage_dropping_response ::
  "render \<Rightarrow> httpTransport \<Rightarrow> Message \<Rightarrow> http_event list
     \<Rightarrow> error option outcome \<times> http_event list" where
  "http_WriteMessage_dropping_response render w m tr =
     (case json_Marshal render m of
        Panic p \<Rightarrow> (Panic p, tr)
      | Return (Inl err) \<Rightarrow> (Return (Some err), tr)
      | Return (Inr mBytes) \<Rightarrow>
          (let r = client w (url w) mBytes
           in (Return (map_option LibraryError (snd r)), tr @ [PostRequest (url w) mBytes])))"

subsection \<open>Sample inputs\<close>

text \<open>
  A message as \<open>Writer.Write\<close> builds it, and the zero value of \<open>Message\<close> into which a
  caller decodes.
\<close>

definition sample_message :: Message where
  "sample_message =
     \<lparr>Version = ''1.0'', Host = ''web1'', Short = ''hello'', Full = [],
      TimeUnix = Finite (3 / 2), Level = 6, Facility = ''app'', File = ''main.go'', Line = 42,
      Extra = []\<rparr>"

definition zero_message :: Message where
  "zero_message =
     \<lparr>Version = [], Host = [], Short = [], Full = [], TimeUnix = Finite 0, Level = 0,
      Facility = [], File = [], Line = 0, Extra = []\<rparr>"

text \<open>
  An environment for the examples: a connection that accepts every datagram whole, a random
  source that delivers the bytes 0 to 7, a compressor that stores its input, a rendering of
  JSON text that writes one zero byte for each token, and a \<open>range\<close> loop that visits a map
  in the order of its list.
\<close>

definition accepting_conn :: conn where
  "accepting_conn h p = (length p, None)"

definition counting_rand :: rand_reader where
  "counting_rand = \<lparr>rand_byte = of_nat, rand_n = 8, rand_err = None\<rparr>"

definition storing_compressor :: compressor where
  "storing_compressor level b = Inr b"

definition token_count_render :: render where
  "token_count_render ts = replicate (length ts) 0"

definition list_order :: range_order where
  "list_order i = i"

section \<open>Properties\<close>

subsection \<open>The chunk loop when every write succeeds\<close>

lemma uint8_increment:
  fixes i n :: byte
  assumes "i < n"
  shows "unat (i + 1) = Suc (unat i)"
proof -
  have "unat i < unat n"
    using assms by (simp add: word_less_nat_alt)
  moreover have "unat n < 256"
    using unsigned_less [of n, where ?'a = nat] by simp
  ultimately show ?thesis
    by (simp add: unat_word_ariths)
qed

lemma go_slice_chunk:
  assumes "off \<le> length z" and "o' = int off" and "bl = int (length z - off)"
  shows "go_slice z o' (o' + (if int chunkedDataLen > bl then bl else int chunkedDataLen))
         = Some (take chunkedDataLen (drop off z))"
  using assms by (auto simp: go_slice_def min_def)

lemma bytes_left_step:
  fixes L off c :: nat
  assumes "off \<le> L" and "bl = int (L - off)"
  shows "bl - (if int c > bl then bl else int c) = int (L - (off + c))"
  using assms by auto

lemma chunk_loop_all_written:
  assumes ok: "\<forall>h p. c h p = (length p, None)"
    and lo: "(unat n - 1) * chunkedDataLen \<le> length z"
    and hi: "length z \<le> unat n * chunkedDataLen"
    and le: "unat i \<le> unat n"
    and bl: "bytesLeft = int (length z - unat i * chunkedDataLen)"
  shows "chunk_loop c z msgId n i bytesLeft w =
           (Return None,
            w @ map (\<lambda>k. magicChunked @ msgId @ [of_nat k] @ [n] @
                           take chunkedDataLen (drop (k * chunkedDataLen) z))
                  [unat i..<unat n])"
  using le bl
proof (induction "unat n - unat i" arbitrary: i bytesLeft w)
  case 0
  then have eq: "unat i = unat n" by simp
  then have "\<not> i < n" by (simp add: word_less_nat_alt)
  moreover have "bytesLeft = 0" using 0 eq hi by simp
  ultimately show ?case using eq by (subst chunk_loop.simps) simp
next
  case (Suc d)
  then have lt: "unat i < unat n" by simp
  then have wlt: "i < n" by (simp add: word_less_nat_alt)
  have suc: "unat (i + 1) = Suc (unat i)" using wlt by (rule uint8_increment)
  define off where "off = unat i * chunkedDataLen"
  have "unat i \<le> unat n - 1" using lt by simp
  then have "off \<le> (unat n - 1) * chunkedDataLen" unfolding off_def by (rule mult_le_mono1)
  then have off: "off \<le> length z" using lo by simp
  have bl: "bytesLeft = int (length z - off)" using Suc.prems by (simp add: off_def)
  define chunkLen where "chunkLen = (if int chunkedDataLen > bytesLeft then bytesLeft else int chunkedDataLen)"
  have o': "int (unat i) * int chunkedDataLen = int off" by (simp add: off_def)
  have sl: "go_slice z (int (unat i) * int chunkedDataLen) (int (unat i) * int chunkedDataLen + chunkLen)
            = Some (take chunkedDataLen (drop off z))"
    unfolding chunkLen_def using off o' bl by (rule go_slice_chunk)
  define buf where "buf = magicChunked @ msgId @ [i] @ [n] @ take chunkedDataLen (drop off z)"
  have next_bl: "bytesLeft - chunkLen = int (length z - unat (i + 1) * chunkedDataLen)"
  proof -
    have "unat (i + 1) * chunkedDataLen = off + chunkedDataLen"
      by (simp add: suc off_def)
    then show ?thesis
      unfolding chunkLen_def using bytes_left_step [OF off bl] by simp
  qed
  have d: "d = unat n - unat (i + 1)" using Suc.hyps(2) suc by simp
  have le': "unat (i + 1) \<le> unat n" using lt suc by simp
  have IH: "chunk_loop c z msgId n (i + 1) (bytesLeft - chunkLen) (w @ [buf]) =
           (Return None,
            (w @ [buf]) @ map (\<lambda>k. magicChunked @ msgId @ [of_nat k] @ [n] @
                           take chunkedDataLen (drop (k * chunkedDataLen) z))
                  [unat (i + 1)..<unat n])"
    using Suc.hyps(1) [OF d le' next_bl] .
  have step: "chunk_loop c z msgId n i bytesLeft w =
        chunk_loop c z msgId n (i + 1) (bytesLeft - chunkLen) (w @ [buf])"
    apply (subst chunk_loop.simps)
    apply (simp only: wlt if_True Let_def chunkLen_def [symmetric] sl option.case)
    apply (simp add: ok buf_def)
    done
  show ?case
    unfolding step IH using lt by (simp add: suc upt_conv_Cons buf_def off_def)
qed

lemma concat_slices:
  "concat (map (\<lambda>k. take c (drop (k * c) z)) [0..<n]) = take (n * c) z"
proof (induction n)
  case 0
  show ?case by simp
next
  case (Suc n)
  have "Suc n * c = n * c + c"
    by simp
  then have "take (Suc n * c) z = take (n * c) z @ take c (drop (n * c) z)"
    by (simp only: take_add)
  with Suc show ?case by simp
qed

lemma numChunks_chunked:
  assumes "1 < numChunks z"
  shows "ChunkSize < length z" and "numChunks z = length z div chunkedDataLen + 1"
  using assms by (auto simp: numChunks_def Let_def split: if_splits)

lemma numChunks_bounds:
  assumes "1 < numChunks z"
  shows "(numChunks z - 1) * chunkedDataLen \<le> length z"
    and "length z < numChunks z * chunkedDataLen"
proof -
  have n: "numChunks z = length z div chunkedDataLen + 1"
    using assms by (rule numChunks_chunked)
  have pos: "0 < chunkedDataLen"
    by (simp add: chunkedDataLen_def ChunkSize_def chunkedHeaderLen_def)
  show "(numChunks z - 1) * chunkedDataLen \<le> length z"
    by (simp add: n)
  have "length z < (length z div chunkedDataLen + 1) * chunkedDataLen"
    using dividend_less_div_times [OF pos, of "length z"] by simp
  then show "length z < numChunks z * chunkedDataLen"
    by (simp only: n)
qed

lemma unat_uint8_count:
  assumes "n \<le> 255"
  shows "unat (of_nat n :: byte) = n"
  using assms by (simp add: unat_of_nat)

lemma writeChunked_all_written:
  assumes chunked: "1 < numChunks zBytes"
    and fits: "numChunks zBytes \<le> 255"
    and rnd: "rand_err rnd = None" "rand_n rnd = 8"
    and ok: "\<forall>h p. c h p = (length p, None)"
  shows "writeChunked c rnd zBytes w =
           (Return None,
            w @ map (\<lambda>k. magicChunked @ map (rand_byte rnd) [0..<8] @ [of_nat k] @
                           [of_nat (numChunks zBytes)] @
                           take chunkedDataLen (drop (k * chunkedDataLen) zBytes))
                  [0..<numChunks zBytes])"
proof -
  define n :: byte where "n = of_nat (numChunks zBytes)"
  have un: "unat n = numChunks zBytes"
    unfolding n_def using fits by (rule unat_uint8_count)
  have lo: "(unat n - 1) * chunkedDataLen \<le> length zBytes"
    using numChunks_bounds(1) [OF chunked] by (simp add: un)
  have hi: "length zBytes \<le> unat n * chunkedDataLen"
    using numChunks_bounds(2) [OF chunked] by (simp add: un)
  have loop: "chunk_loop c zBytes (map (rand_byte rnd) [0..<8]) n 0 (int (length zBytes)) w =
           (Return None,
            w @ map (\<lambda>k. magicChunked @ map (rand_byte rnd) [0..<8] @ [of_nat k] @ [n] @
                           take chunkedDataLen (drop (k * chunkedDataLen) zBytes))
                  [unat (0 :: byte)..<unat n])"
    by (rule chunk_loop_all_written [OF ok lo hi]) simp_all
  have "writeChunked c rnd zBytes w =
          chunk_loop c zBytes (map (rand_byte rnd) [0..<8]) n 0 (int (length zBytes)) w"
    using fits rnd by (simp add: writeChunked_def Let_def io_ReadFull_def n_def)
  then show ?thesis
    unfolding loop by (simp add: un) (simp add: n_def)
qed

subsection \<open>The chunk loop with any connection\<close>

text \<open>
  Whatever the connection answers, the slice expression of the loop stays in range, the loop
  does not panic, and the datagrams handed to the connection are the first \<open>j\<close> frames: the
  loop stops at the first write that fails or is short.
\<close>

lemma chunk_loop_wire_prefix:
  assumes lo: "(unat n - 1) * chunkedDataLen \<le> length z"
    and hi: "length z \<le> unat n * chunkedDataLen"
    and le: "unat i \<le> unat n"
    and bl: "bytesLeft = int (length z - unat i * chunkedDataLen)"
  shows "\<exists>j r. unat i \<le> j \<and> j \<le> unat n \<and>
           chunk_loop c z msgId n i bytesLeft w =
             (Return r,
              w @ map (\<lambda>k. magicChunked @ msgId @ [of_nat k] @ [n] @
                             take chunkedDataLen (drop (k * chunkedDataLen) z))
                    [unat i..<j])"
  using le bl
proof (induction "unat n - unat i" arbitrary: i bytesLeft w)
  case 0
  then have eq: "unat i = unat n" by simp
  then have "\<not> i < n" by (simp add: word_less_nat_alt)
  then have "chunk_loop c z msgId n i bytesLeft w =
               (Return (if bytesLeft \<noteq> 0 then Some (BytesLeftError bytesLeft) else None), w)"
    by (subst chunk_loop.simps) simp
  then show ?case
    using eq by (intro exI [of _ "unat i"]) simp
next
  case (Suc d)
  then have lt: "unat i < unat n" by simp
  then have wlt: "i < n" by (simp add: word_less_nat_alt)
  have suc: "unat (i + 1) = Suc (unat i)" using wlt by (rule uint8_increment)
  define off where "off = unat i * chunkedDataLen"
  have "unat i \<le> unat n - 1" using lt by simp
  then have "off \<le> (unat n - 1) * chunkedDataLen" unfolding off_def by (rule mult_le_mono1)
  then have off: "off \<le> length z" using lo by simp
  have bl: "bytesLeft = int (length z - off)" using Suc.prems by (simp add: off_def)
  define chunkLen where
    "chunkLen = (if int chunkedDataLen > bytesLeft then bytesLeft else int chunkedDataLen)"
  have o': "int (unat i) * int chunkedDataLen = int off" by (simp add: off_def)
  have sl: "go_slice z (int (unat i) * int chunkedDataLen)
              (int (unat i) * int chunkedDataLen + chunkLen)
            = Some (take chunkedDataLen (drop off z))"
    unfolding chunkLen_def using off o' bl by (rule go_slice_chunk)
  define buf where
    "buf = (magicChunked @ msgId @ [i] @ [n]) @ take chunkedDataLen (drop off z)"
  define frame where "frame = (\<lambda>k. magicChunked @ msgId @ [of_nat k] @ [n] @
                             take chunkedDataLen (drop (k * chunkedDataLen) z))"
  have buf_frame: "buf = frame (unat i)"
    by (simp add: buf_def frame_def off_def)
  have next_bl: "bytesLeft - chunkLen = int (length z - unat (i + 1) * chunkedDataLen)"
  proof -
    have "unat (i + 1) * chunkedDataLen = off + chunkedDataLen"
      by (simp add: suc off_def)
    then show ?thesis
      unfolding chunkLen_def using bytes_left_step [OF off bl] by simp
  qed
  have d: "d = unat n - unat (i + 1)" using Suc.hyps(2) suc by simp
  have le': "unat (i + 1) \<le> unat n" using lt suc by simp
  obtain j r where j: "unat (i + 1) \<le> j" "j \<le> unat n"
    and IH: "chunk_loop c z msgId n (i + 1) (bytesLeft - chunkLen) (w @ [buf]) =
               (Return r, (w @ [buf]) @ map frame [unat (i + 1)..<j])"
    using Suc.hyps(1) [OF d le' next_bl, of "w @ [buf]"] unfolding frame_def by blast
  have one: "w @ [buf] = w @ map frame [unat i..<Suc (unat i)]"
    by (simp add: buf_frame)
  have more: "(w @ [buf]) @ map frame [unat (i + 1)..<j] = w @ map frame [unat i..<j]"
    using j(1) by (simp add: suc buf_frame upt_conv_Cons)
  have step: "chunk_loop c z msgId n i bytesLeft w =
      (case snd (c w buf) of
         Some e \<Rightarrow> (Return (Some (WriteChunkError i n e)), w @ [buf])
       | None \<Rightarrow>
           if fst (c w buf) \<noteq> length buf
           then (Return (Some (WriteLenError i n (fst (c w buf)) (length buf))), w @ [buf])
           else chunk_loop c z msgId n (i + 1) (bytesLeft - chunkLen) (w @ [buf]))"
    apply (subst chunk_loop.simps)
    apply (simp only: wlt if_True Let_def chunkLen_def [symmetric] sl option.case
        buf_def [symmetric])
    done
  show ?case
  proof (cases "snd (c w buf)")
    case (Some e)
    then have "chunk_loop c z msgId n i bytesLeft w =
                 (Return (Some (WriteChunkError i n e)), w @ map frame [unat i..<Suc (unat i)])"
      using step one by simp
    then show ?thesis
      unfolding frame_def using lt by (intro exI [of _ "Suc (unat i)"]) auto
  next
    case None
    show ?thesis
    proof (cases "fst (c w buf) \<noteq> length buf")
      case True
      then have "chunk_loop c z msgId n i bytesLeft w =
                   (Return (Some (WriteLenError i n (fst (c w buf)) (length buf))),
                    w @ map frame [unat i..<Suc (unat i)])"
        using step one None by simp
      then show ?thesis
        unfolding frame_def using lt by (intro exI [of _ "Suc (unat i)"]) auto
    next
      case False
      then have "chunk_loop c z msgId n i bytesLeft w = (Return r, w @ map frame [unat i..<j])"
        using step None IH more by simp
      then show ?thesis
        unfolding frame_def using j suc by (intro exI [of _ j]) auto
    qed
  qed
qed

lemma writeChunked_wire_prefix:
  assumes chunked: "1 < numChunks zBytes"
  shows "\<exists>j r. j \<le> numChunks zBytes \<and>
           writeChunked c rnd zBytes w =
             (Return r,
              w @ map (\<lambda>k. magicChunked @ map (rand_byte rnd) [0..<8] @ [of_nat k] @
                             [of_nat (numChunks zBytes)] @
                             take chunkedDataLen (drop (k * chunkedDataLen) zBytes))
                    [0..<j])"
proof (cases "numChunks zBytes \<le> 255 \<and> rand_err rnd = None \<and> rand_n rnd = 8")
  case False
  then have "\<exists>r. writeChunked c rnd zBytes w = (Return r, w)"
    by (auto simp: writeChunked_def Let_def io_ReadFull_def)
  then show ?thesis
    by (intro exI [of _ 0]) simp
next
  case True
  define n :: byte where "n = of_nat (numChunks zBytes)"
  have un: "unat n = numChunks zBytes"
    unfolding n_def using True by (simp add: unat_uint8_count)
  have lo: "(unat n - 1) * chunkedDataLen \<le> length zBytes"
    using numChunks_bounds(1) [OF chunked] by (simp add: un)
  have hi: "length zBytes \<le> unat n * chunkedDataLen"
    using numChunks_bounds(2) [OF chunked] by (simp add: un)
  obtain j r where j: "j \<le> unat n"
    and loop: "chunk_loop c zBytes (map (rand_byte rnd) [0..<8]) n 0 (int (length zBytes)) w =
           (Return r,
            w @ map (\<lambda>k. magicChunked @ map (rand_byte rnd) [0..<8] @ [of_nat k] @ [n] @
                           take chunkedDataLen (drop (k * chunkedDataLen) zBytes))
                  [unat (0 :: byte)..<j])"
    using chunk_loop_wire_prefix [OF lo hi, of 0 "int (length zBytes)" c
        "map (rand_byte rnd) [0..<8]" w]
    by auto
  have "writeChunked c rnd zBytes w =
          chunk_loop c zBytes (map (rand_byte rnd) [0..<8]) n 0 (int (length zBytes)) w"
    using True by (simp add: writeChunked_def Let_def io_ReadFull_def n_def)
  then show ?thesis
    using loop j un by (intro exI [of _ j] exI [of _ r]) (simp add: n_def)
qed

subsection \<open>Framing of the chunks\<close>

text \<open>
  Claim C2. A payload that takes the chunked path (\<open>numChunks zBytes > 1\<close>, the test of
  \<open>WriteMessage\<close>) and passes the 255-chunk check, with a random source that delivers its 8
  bytes and a connection that accepts every datagram whole: \<open>writeChunked\<close> returns \<open>nil\<close>
  and hands \<open>numChunks zBytes\<close> datagrams to the connection. Datagram \<open>k\<close> is the magic bytes
  \<open>0x1e 0x0f\<close>, the 8 bytes of the message id (the same in every datagram), the sequence
  index \<open>k\<close> at offset 10, the chunk count at offset 11, and the payload slice that starts at
  \<open>k * chunkedDataLen\<close>. The slices, in order, concatenate to the payload, and the last one is
  what is left of the payload, without padding.
\<close>

theorem writeChunked_framing:
  assumes chunked: "1 < numChunks zBytes"
    and fits: "numChunks zBytes \<le> 255"
    and rnd: "rand_err rnd = None" "rand_n rnd = 8"
    and ok: "\<forall>h p. c h p = (length p, None)"
  shows "\<exists>ws. writeChunked c rnd zBytes w = (Return None, w @ ws)
           \<and> length ws = numChunks zBytes
           \<and> (\<forall>k<numChunks zBytes.
                 ws ! k = [0x1e, 0x0f] @ map (rand_byte rnd) [0..<8] @
                          [of_nat k, of_nat (numChunks zBytes)] @
                          take chunkedDataLen (drop (k * chunkedDataLen) zBytes)
                 \<and> unat (ws ! k ! 10) = k \<and> unat (ws ! k ! 11) = numChunks zBytes)
           \<and> concat (map (drop chunkedHeaderLen) ws) = zBytes
           \<and> drop chunkedHeaderLen (last ws) =
                 drop ((numChunks zBytes - 1) * chunkedDataLen) zBytes"
proof -
  define n where "n = numChunks zBytes"
  define frame where "frame = (\<lambda>k. magicChunked @ map (rand_byte rnd) [0..<8] @ [of_nat k] @
                           [of_nat n :: byte] @
                           take chunkedDataLen (drop (k * chunkedDataLen) zBytes))"
  define ws where "ws = map frame [0..<n]"
  have run: "writeChunked c rnd zBytes w = (Return None, w @ ws)"
    unfolding ws_def frame_def n_def
    by (rule writeChunked_all_written [OF chunked fits rnd ok])
  have len: "length ws = n"
    by (simp add: ws_def)
  have n255: "n \<le> 255" and n1: "1 < n"
    using fits chunked by (simp_all add: n_def)
  have payload: "drop chunkedHeaderLen (frame k) = take chunkedDataLen (drop (k * chunkedDataLen) zBytes)" for k
    by (simp add: frame_def chunkedHeaderLen_def magicChunked_def)
  have nth: "ws ! k = frame k" if "k < n" for k
    using that by (simp add: ws_def)
  have frame_k: "frame k = [0x1e, 0x0f] @ map (rand_byte rnd) [0..<8] @ [of_nat k, of_nat n] @
                          take chunkedDataLen (drop (k * chunkedDataLen) zBytes)" for k
    by (simp add: frame_def magicChunked_def)
  have idx: "unat (frame k ! 10) = k" if "k < n" for k
  proof -
    have "frame k ! 10 = (of_nat k :: byte)"
      by (simp add: frame_def magicChunked_def nth_append)
    moreover have "k \<le> 255" using that n255 by simp
    ultimately show ?thesis by (simp add: unat_uint8_count)
  qed
  have cnt: "unat (frame k ! 11) = n" for k
  proof -
    have "frame k ! 11 = (of_nat n :: byte)"
      by (simp add: frame_def magicChunked_def nth_append)
    then show ?thesis using n255 by (simp add: unat_uint8_count)
  qed
  have bounds: "(n - 1) * chunkedDataLen \<le> length zBytes" "length zBytes < n * chunkedDataLen"
    using numChunks_bounds [OF chunked] by (simp_all add: n_def)
  have "concat (map (drop chunkedHeaderLen) ws) =
          concat (map (\<lambda>k. take chunkedDataLen (drop (k * chunkedDataLen) zBytes)) [0..<n])"
    by (simp add: ws_def payload comp_def)
  also have "\<dots> = take (n * chunkedDataLen) zBytes"
    by (rule concat_slices)
  also have "\<dots> = zBytes"
    using bounds(2) by simp
  finally have cat: "concat (map (drop chunkedHeaderLen) ws) = zBytes" .
  have "last ws = frame (n - 1)"
    using n1 by (simp add: ws_def last_map last_upt)
  then have "drop chunkedHeaderLen (last ws) =
               take chunkedDataLen (drop ((n - 1) * chunkedDataLen) zBytes)"
    by (simp add: payload)
  also have "\<dots> = drop ((n - 1) * chunkedDataLen) zBytes"
  proof (rule take_all)
    have "n * chunkedDataLen = (n - 1) * chunkedDataLen + chunkedDataLen"
      using n1 by (simp add: algebra_simps)
    then show "length (drop ((n - 1) * chunkedDataLen) zBytes) \<le> chunkedDataLen"
      using bounds(2) by simp
  qed
  finally have lst: "drop chunkedHeaderLen (last ws) = drop ((n - 1) * chunkedDataLen) zBytes" .
  show ?thesis
    unfolding n_def [symmetric]
    using run len cat lst nth frame_k idx cnt by (intro exI [of _ ws]) simp
qed

text \<open>
  A payload of 3000 bytes: three datagrams, whose payload slices hold 1408, 1408 and 184
  bytes.
\<close>

theorem writeChunked_framing_witness:
  "1 < numChunks (replicate 3000 (0x41 :: byte))
   \<and> numChunks (replicate 3000 (0x41 :: byte)) \<le> 255
   \<and> rand_err counting_rand = None
   \<and> rand_n counting_rand = 8
   \<and> (\<exists>ws. writeChunked accepting_conn
                counting_rand
                (replicate 3000 0x41) [] = (Return None, ws)
          \<and> length ws = 3
          \<and> ws ! 0 = [0x1e, 0x0f, 0, 1, 2, 3, 4, 5, 6, 7, 0, 3] @ replicate 1408 0x41
          \<and> ws ! 1 = [0x1e, 0x0f, 0, 1, 2, 3, 4, 5, 6, 7, 1, 3] @ replicate 1408 0x41
          \<and> ws ! 2 = [0x1e, 0x0f, 0, 1, 2, 3, 4, 5, 6, 7, 2, 3] @ replicate 184 0x41
          \<and> concat (map (drop chunkedHeaderLen) ws) = replicate 3000 0x41)"
proof -
  let ?z = "replicate 3000 (0x41 :: byte)"
  let ?r = "counting_rand"
  let ?c = "accepting_conn"
  have n: "numChunks ?z = 3"
    by (simp add: numChunks_def ChunkSize_def chunkedDataLen_def chunkedHeaderLen_def)
  have h1: "1 < numChunks ?z" and h2: "numChunks ?z \<le> 255"
    by (simp_all add: n)
  have h3: "rand_err ?r = None" and h4: "rand_n ?r = 8"
    by (simp_all add: counting_rand_def)
  have h5: "\<forall>h p. ?c h p = (length p, None)"
    by (simp add: accepting_conn_def)
  have id8: "map (of_nat :: nat \<Rightarrow> byte) [0..<8] = [0, 1, 2, 3, 4, 5, 6, 7]"
    by (simp add: upt_rec)
  obtain ws where run: "writeChunked ?c ?r ?z [] = (Return None, [] @ ws)"
    and len: "length ws = numChunks ?z"
    and nth: "\<forall>k<numChunks ?z.
                 ws ! k = [0x1e, 0x0f] @ map (rand_byte ?r) [0..<8] @
                          [of_nat k, of_nat (numChunks ?z)] @
                          take chunkedDataLen (drop (k * chunkedDataLen) ?z)
                 \<and> unat (ws ! k ! 10) = k \<and> unat (ws ! k ! 11) = numChunks ?z"
    and cat: "concat (map (drop chunkedHeaderLen) ws) = ?z"
    using writeChunked_framing [OF h1 h2 h3 h4 h5, of "[]"] by blast
  have w0: "ws ! 0 = [0x1e, 0x0f, 0, 1, 2, 3, 4, 5, 6, 7, 0, 3] @ replicate 1408 0x41"
    using nth [rule_format, of 0]
    by (simp add: n id8 counting_rand_def chunkedDataLen_def ChunkSize_def chunkedHeaderLen_def)
  have w1: "ws ! 1 = [0x1e, 0x0f, 0, 1, 2, 3, 4, 5, 6, 7, 1, 3] @ replicate 1408 0x41"
    using nth [rule_format, of 1]
    by (simp add: n id8 counting_rand_def chunkedDataLen_def ChunkSize_def chunkedHeaderLen_def)
  have w2: "ws ! 2 = [0x1e, 0x0f, 0, 1, 2, 3, 4, 5, 6, 7, 2, 3] @ replicate 184 0x41"
    using nth [rule_format, of 2]
    by (simp add: n id8 counting_rand_def chunkedDataLen_def ChunkSize_def chunkedHeaderLen_def)
  show ?thesis
    using h1 h2 h3 h4 run len w0 w1 w2 cat by (simp add: n)
qed

subsection \<open>The chunk count at multiples of the data length\<close>

text \<open>
  Claim C1. The chunk count of a payload longer than \<open>ChunkSize\<close> is
  \<open>length div chunkedDataLen + 1\<close>, which is the ceiling of \<open>length / chunkedDataLen\<close> only
  when the length is not a multiple of \<open>chunkedDataLen\<close>. A payload of 2816 = 2 * 1408 bytes
  needs two chunks; \<open>numChunks\<close> answers 3 and \<open>writeChunked\<close> sends three datagrams, the third
  with a header and no payload.
\<close>

theorem numChunks_exact_multiple:
  "length (replicate 2816 (0 :: byte)) = 2 * chunkedDataLen
   \<and> numChunks (replicate 2816 (0 :: byte)) = 3
   \<and> writeChunked accepting_conn
         counting_rand (replicate 2816 0) [] =
       (Return None,
        [[0x1e, 0x0f, 0, 1, 2, 3, 4, 5, 6, 7, 0, 3] @ replicate 1408 0,
         [0x1e, 0x0f, 0, 1, 2, 3, 4, 5, 6, 7, 1, 3] @ replicate 1408 0,
         [0x1e, 0x0f, 0, 1, 2, 3, 4, 5, 6, 7, 2, 3]])"
proof -
  let ?z = "replicate 2816 (0 :: byte)"
  let ?r = "counting_rand"
  let ?c = "accepting_conn"
  have n: "numChunks ?z = 3"
    by (simp add: numChunks_def ChunkSize_def chunkedDataLen_def chunkedHeaderLen_def)
  have id8: "map (of_nat :: nat \<Rightarrow> byte) [0..<8] = [0, 1, 2, 3, 4, 5, 6, 7]"
    by (simp add: upt_rec)
  have up: "[0..<3] = [0, 1, 2]"
    by (simp add: upt_rec)
  have "writeChunked ?c ?r ?z [] =
           (Return None,
            [] @ map (\<lambda>k. magicChunked @ map (rand_byte ?r) [0..<8] @ [of_nat k] @
                           [of_nat (numChunks ?z)] @
                           take chunkedDataLen (drop (k * chunkedDataLen) ?z))
                  [0..<numChunks ?z])"
    by (rule writeChunked_all_written)
      (simp_all add: n counting_rand_def accepting_conn_def)
  then show ?thesis
    by (simp add: n id8 up counting_rand_def magicChunked_def chunkedDataLen_def ChunkSize_def
        chunkedHeaderLen_def)
qed

subsection \<open>The oversize check\<close>

text \<open>
  \<open>writeChunked\<close> refuses a payload exactly when \<open>numChunks\<close> exceeds 255, which is from
  \<open>255 * chunkedDataLen\<close> bytes on.
\<close>

lemma numChunks_oversize_iff:
  "255 < numChunks z \<longleftrightarrow> 255 * chunkedDataLen \<le> length z"
proof -
  have pos: "0 < chunkedDataLen"
    by (simp add: chunkedDataLen_def ChunkSize_def chunkedHeaderLen_def)
  have "255 \<le> length z div chunkedDataLen \<longleftrightarrow> 255 * chunkedDataLen \<le> length z"
    using pos by (simp add: less_eq_div_iff_mult_less_eq)
  then show ?thesis
    by (auto simp: numChunks_def Let_def chunkedDataLen_def ChunkSize_def chunkedHeaderLen_def)
qed

text \<open>
  Claim C3. A payload of 359040 = 255 * 1408 bytes fits 255 full chunks; \<open>numChunks\<close> answers
  256 and \<open>writeChunked\<close> returns the error "msg too large, would need 256 chunks" without
  writing anything.
\<close>

theorem writeChunked_rejects_255_full_chunks:
  "length (replicate 359040 (0 :: byte)) = 255 * chunkedDataLen
   \<and> writeChunked c rnd (replicate 359040 0) w = (Return (Some (MsgTooLarge 256)), w)"
  by (simp add: writeChunked_def numChunks_def ChunkSize_def chunkedDataLen_def chunkedHeaderLen_def)

subsection \<open>The object text: splicing and parsing\<close>

lemma json_members_append:
  assumes "fs \<noteq> []" and "es \<noteq> []"
  shows "json_members (fs @ es) = json_members fs @ Comma # json_members es"
  using assms
proof (induction fs rule: json_members.induct)
  case 1
  then show ?case by simp
next
  case (2 k v)
  then show ?case by (cases es) auto
next
  case (3 k v p ps)
  then show ?case by simp
qed

lemma json_object_splice:
  assumes "fs \<noteq> []" and "es \<noteq> []"
  shows "(json_object fs)[length (json_object fs) - 1 := Comma] @ drop 1 (json_object es) =
           json_object (fs @ es)"
proof -
  have "(json_object fs)[length (json_object fs) - 1 := Comma] = LBrace # json_members fs @ [Comma]"
    by (simp add: json_object_def list_update_append)
  moreover have "drop 1 (json_object es) = json_members es @ [RBrace]"
    by (simp add: json_object_def)
  ultimately show ?thesis
    using json_members_append [OF assms] by (simp add: json_object_def)
qed

lemma parse_members_json_members:
  assumes "kvs \<noteq> []"
  shows "parse_members (json_members kvs @ [RBrace]) = Some kvs"
  using assms
proof (induction kvs rule: json_members.induct)
  case 1
  then show ?case by simp
next
  case (2 k v)
  then show ?case by simp
next
  case (3 k v p ps)
  then show ?case by simp
qed

lemma parse_object_json_object: "parse_object (json_object kvs) = Some kvs"
proof (cases kvs)
  case Nil
  then show ?thesis by (simp add: parse_object_def json_object_def)
next
  case (Cons p ps)
  then have "json_members kvs @ [RBrace] \<noteq> [RBrace]"
    by (cases p; cases ps) auto
  then show ?thesis
    using parse_members_json_members [of kvs] Cons
    by (simp add: parse_object_def json_object_def)
qed

lemma update_new_key:
  assumes "k \<notin> fst ` set al"
  shows "AList.update k v al = al @ [(k, v)]"
  using assms by (induction al) auto

lemma foldl_update_distinct:
  assumes "distinct (map fst (acc @ kvs))"
  shows "foldl (\<lambda>i kv. AList.update (fst kv) (snd kv) i) acc kvs = acc @ kvs"
  using assms
proof (induction kvs arbitrary: acc)
  case Nil
  then show ?case by simp
next
  case (Cons kv kvs)
  have "fst kv \<notin> fst ` set acc"
    using Cons.prems by auto
  then have "AList.update (fst kv) (snd kv) acc = acc @ [kv]"
    by (simp add: update_new_key)
  moreover have "distinct (map fst ((acc @ [kv]) @ kvs))"
    using Cons.prems by simp
  ultimately show ?case
    using Cons.IH [of "acc @ [kv]"] by simp
qed

lemma store_members_distinct:
  assumes "distinct (map fst kvs)"
  shows "store_members kvs = kvs"
  using foldl_update_distinct [of "[]" kvs] assms by (simp add: store_members_def)

lemma json_Unmarshal_json_object:
  "json_Unmarshal (json_object kvs) = Inr (store_members kvs)"
  using parse_object_json_object [of kvs]
  by (simp add: json_Unmarshal_def json_object_def)

subsection \<open>What \<open>MarshalJSON\<close> returns\<close>

lemma innerMessage_members_keys:
  "map fst (innerMessage_members m) =
     [''version'', ''host'', ''short_message'', ''full_message'', ''timestamp'', ''level'',
      ''facility'', ''file'', ''line'']"
  by (simp add: innerMessage_members_def)

lemma innerMessage_members_nonempty: "innerMessage_members m \<noteq> []"
  by (simp add: innerMessage_members_def)

lemma sort_key_nonempty: "xs \<noteq> [] \<Longrightarrow> sort_key f xs \<noteq> []"
  by (metis length_0_conv length_sort)

lemma MarshalJSON_Return:
  assumes "MarshalJSON m = Return (Inr data)"
  shows "data = json_object (innerMessage_members m @ sort_key fst (Extra m))"
    and "\<exists>q. TimeUnix m = Finite q"
    and "list_all marshalable (map snd (Extra m))"
proof -
  from assms obtain q where q: "TimeUnix m = Finite q"
    by (auto simp: MarshalJSON_def marshal_innerMessage_def Let_def split: float64.splits)
  then show "\<exists>q. TimeUnix m = Finite q" ..
  have b: "marshal_innerMessage m = Inr (json_object (innerMessage_members m))"
    by (simp add: marshal_innerMessage_def q)
  show "data = json_object (innerMessage_members m @ sort_key fst (Extra m))"
  proof (cases "Extra m = []")
    case True
    then show ?thesis using assms b by (simp add: MarshalJSON_def)
  next
    case False
    then have eb: "marshal_map (Extra m) = Inr (json_object (sort_key fst (Extra m)))"
      using assms b
      by (auto simp: MarshalJSON_def marshal_map_def Let_def split: if_splits)
    have len: "go_slice (json_object es) 1 (int (length (json_object es))) =
                 Some (drop 1 (json_object es))" for es :: "(string \<times> go_value) list"
      by (simp add: go_slice_def json_object_def)
    have "data = (json_object (innerMessage_members m))
                   [length (json_object (innerMessage_members m)) - 1 := Comma]
                 @ drop 1 (json_object (sort_key fst (Extra m)))"
      using assms False b eb len by (simp add: MarshalJSON_def json_object_def)
    then show ?thesis
      using json_object_splice [OF innerMessage_members_nonempty sort_key_nonempty [OF False]]
      by simp
  qed
  show "list_all marshalable (map snd (Extra m))"
  proof (cases "Extra m = []")
    case True
    then show ?thesis by simp
  next
    case False
    then show ?thesis
      using assms b
      by (auto simp: MarshalJSON_def marshal_map_def Let_def split: if_splits)
  qed
qed

lemma MarshalJSON_no_panic: "MarshalJSON m \<noteq> Panic p"
proof -
  have len: "go_slice (json_object es) 1 (int (length (json_object es))) =
               Some (drop 1 (json_object es))" for es :: "(string \<times> go_value) list"
    by (simp add: go_slice_def json_object_def)
  have ne: "json_object es \<noteq> []" for es :: "(string \<times> go_value) list"
    by (simp add: json_object_def)
  show ?thesis
    by (auto simp: MarshalJSON_def marshal_innerMessage_def marshal_map_def Let_def len ne
          split: float64.splits)
qed


subsection \<open>What the decoding loop stores\<close>

lemma range_body_cases:
  assumes "range_body m k v = Return m'"
  shows "(k \<noteq> [] \<and> hd k = CHR ''_'' \<and> m' = m\<lparr>Extra := AList.update k v (Extra m)\<rparr>)
       \<or> (k \<noteq> [] \<and> hd k \<noteq> CHR ''_'' \<and> k \<notin> set fixed_keys \<and> m' = m)
       \<or> (k = ''version'' \<and> (\<exists>s. v = GoString s \<and> m' = m\<lparr>Version := s\<rparr>))
       \<or> (k = ''host'' \<and> (\<exists>s. v = GoString s \<and> m' = m\<lparr>Host := s\<rparr>))
       \<or> (k = ''short_message'' \<and> (\<exists>s. v = GoString s \<and> m' = m\<lparr>Short := s\<rparr>))
       \<or> (k = ''full_message'' \<and> (\<exists>s. v = GoString s \<and> m' = m\<lparr>Full := s\<rparr>))
       \<or> (k = ''timestamp'' \<and> (\<exists>f. v = GoFloat64 f \<and> m' = m\<lparr>TimeUnix := f\<rparr>))
       \<or> (k = ''level'' \<and> (\<exists>f. v = GoFloat64 f \<and> m' = m\<lparr>Level := int32_of_float64 f\<rparr>))
       \<or> (k = ''facility'' \<and> (\<exists>s. v = GoString s \<and> m' = m\<lparr>Facility := s\<rparr>))
       \<or> (k = ''file'' \<and> (\<exists>s. v = GoString s \<and> m' = m\<lparr>File := s\<rparr>))
       \<or> (k = ''line'' \<and> (\<exists>f. v = GoFloat64 f \<and> m' = m\<lparr>Line := int_of_float64 f\<rparr>))"
proof (cases k)
  case Nil
  then show ?thesis using assms by (simp add: range_body_def)
next
  case (Cons c cs)
  show ?thesis
  proof (cases "c = CHR ''_''")
    case True
    then show ?thesis using assms Cons by (simp add: range_body_def)
  next
    case False
    then have "hd k \<noteq> CHR ''_''" "k \<noteq> []" using Cons by simp_all
    then show ?thesis
      using assms Cons False
      by (simp add: range_body_def assert_string_def assert_float64_def fixed_keys_def
            split: if_splits go_value.splits)
  qed
qed

lemma fixed_key_hd:
  assumes "k \<in> set fixed_keys"
  shows "hd k \<noteq> CHR ''_''" and "k \<noteq> []"
  using assms by (auto simp: fixed_keys_def)

lemma range_body_stores:
  assumes "range_body m k v = Return m'" and "k \<in> set fixed_keys"
  shows "stored k v = Some (field k m')"
  using range_body_cases [OF assms(1)] assms(2)
  by (elim disjE conjE exE) (simp_all add: field_def stored_def fixed_key_hd)

lemma range_body_keeps:
  assumes "range_body m k v = Return m'" and "k' \<noteq> k"
  shows "field k' m' = field k' m"
  using range_body_cases [OF assms(1)] assms(2)
  by (elim disjE conjE exE) (simp_all add: field_def)

lemma range_body_Extra:
  assumes "range_body m k v = Return m'"
  shows "Extra m' = (if hd k = CHR ''_'' then AList.update k v (Extra m) else Extra m)"
  using range_body_cases [OF assms]
  by (elim disjE conjE exE) simp_all

lemma range_loop_keeps:
  assumes "range_loop m xs = Return m'" and "k' \<notin> fst ` set xs"
  shows "field k' m' = field k' m"
  using assms
proof (induction xs arbitrary: m)
  case Nil
  then show ?case by simp
next
  case (Cons x xs)
  obtain k v where x: "x = (k, v)" by (cases x)
  from Cons.prems(1) x obtain m1 where b: "range_body m k v = Return m1"
    and l: "range_loop m1 xs = Return m'"
    by (auto split: outcome.splits)
  have "k' \<noteq> k" and "k' \<notin> fst ` set xs"
    using Cons.prems(2) x by auto
  then show ?case
    using Cons.IH [OF l] range_body_keeps [OF b] by simp
qed

lemma range_loop_stores:
  assumes "range_loop m xs = Return m'" and "distinct (map fst xs)"
    and "(k, v) \<in> set xs" and "k \<in> set fixed_keys"
  shows "stored k v = Some (field k m')"
  using assms(1-3)
proof (induction xs arbitrary: m)
  case Nil
  then show ?case by simp
next
  case (Cons x xs)
  obtain k0 v0 where x: "x = (k0, v0)" by (cases x)
  from Cons.prems(1) x obtain m1 where b: "range_body m k0 v0 = Return m1"
    and l: "range_loop m1 xs = Return m'"
    by (auto split: outcome.splits)
  show ?case
  proof (cases "(k, v) = (k0, v0)")
    case True
    then have "k \<notin> fst ` set xs"
      using Cons.prems(2) x by auto
    then have "field k m' = field k m1"
      using l by (rule range_loop_keeps [rotated])
    moreover have "stored k v = Some (field k m1)"
      using b True assms(4) by (auto dest: range_body_stores)
    ultimately show ?thesis by simp
  next
    case False
    then have "(k, v) \<in> set xs" using Cons.prems(3) x by auto
    moreover have "distinct (map fst xs)" using Cons.prems(2) by simp
    ultimately show ?thesis using Cons.IH [OF l] by simp
  qed
qed

lemma range_loop_Extra:
  assumes "range_loop m xs = Return m'" and "distinct (map fst xs)"
  shows "map_of (Extra m') k =
           (if hd k = CHR ''_'' \<and> k \<in> fst ` set xs then map_of xs k else map_of (Extra m) k)"
  using assms
proof (induction xs arbitrary: m)
  case Nil
  then show ?case by simp
next
  case (Cons x xs)
  obtain k0 v0 where x: "x = (k0, v0)" by (cases x)
  from Cons.prems(1) x obtain m1 where b: "range_body m k0 v0 = Return m1"
    and l: "range_loop m1 xs = Return m'"
    by (auto split: outcome.splits)
  have d: "distinct (map fst xs)" and k0: "k0 \<notin> fst ` set xs"
    using Cons.prems(2) x by auto
  have m1: "map_of (Extra m1) k =
              (if hd k0 = CHR ''_'' \<and> k = k0 then Some v0 else map_of (Extra m) k)"
    using range_body_Extra [OF b] by (simp add: update_conv')
  have not_in: "k \<notin> fst ` set xs \<Longrightarrow> map_of xs k = None"
    by (simp add: map_of_eq_None_iff)
  show ?case
    using Cons.IH [OF l d] m1 k0 x by (auto simp: not_in)
qed

lemma range_loop_Extra_distinct:
  assumes "range_loop m xs = Return m'" and "distinct (map fst (Extra m))"
  shows "distinct (map fst (Extra m'))"
  using assms
proof (induction xs arbitrary: m)
  case Nil
  then show ?case by simp
next
  case (Cons x xs)
  obtain k v where x: "x = (k, v)" by (cases x)
  from Cons.prems(1) x obtain m1 where b: "range_body m k v = Return m1"
    and l: "range_loop m1 xs = Return m'"
    by (auto split: outcome.splits)
  have "distinct (map fst (Extra m1))"
    using range_body_Extra [OF b] Cons.prems(2) by (simp add: distinct_update)
  then show ?case using Cons.IH [OF l] by simp
qed

lemma range_loop_succeeds:
  assumes "\<forall>x \<in> set xs. \<forall>m. \<exists>m'. range_body m (fst x) (snd x) = Return m'"
  shows "\<exists>m'. range_loop m xs = Return m'"
  using assms
proof (induction xs arbitrary: m)
  case Nil
  then show ?case by simp
next
  case (Cons x xs)
  obtain k v where x: "x = (k, v)" by (cases x)
  then obtain m1 where "range_body m k v = Return m1"
    using Cons.prems by fastforce
  moreover have "\<exists>m'. range_loop m1 xs = Return m'"
    using Cons by simp
  ultimately show ?case using x by auto
qed

lemma range_loop_panics:
  assumes "(k, v) \<in> set xs" and "\<forall>m. \<exists>p. range_body m k v = Panic p"
  shows "\<exists>p. range_loop m xs = Panic p"
  using assms(1)
proof (induction xs arbitrary: m)
  case Nil
  then show ?case by simp
next
  case (Cons x xs)
  obtain k0 v0 where x: "x = (k0, v0)" by (cases x)
  show ?case
  proof (cases "range_body m k0 v0")
    case (Panic p)
    then show ?thesis using x by simp
  next
    case (Return m1)
    then have "(k, v) \<noteq> (k0, v0)" using assms(2) by (metis outcome.distinct(1) prod.inject)
    then have "(k, v) \<in> set xs" using Cons.prems x by auto
    then show ?thesis using Cons.IH Return x by simp
  qed
qed


subsection \<open>Integer fields through \<open>float64\<close>\<close>

lemma go_trunc_of_int: "go_trunc (of_int z) = z"
  by (simp add: go_trunc_def)

lemma round_to_53_bits_exact:
  assumes "\<bar>n\<bar> \<le> 2 ^ 53"
  shows "round_to_53_bits n = n"
proof (cases "\<bar>n\<bar> < 2 ^ 53")
  case True
  then have "nat \<bar>n\<bar> < 2 ^ 53" by simp
  then show ?thesis by (simp add: round_to_53_bits_def Let_def)
next
  case False
  then have "n = 9007199254740992 \<or> n = - 9007199254740992"
    using assms by auto
  moreover have "round_to_53_bits 9007199254740992 = 9007199254740992"
    by (simp add: round_to_53_bits_def Let_def bit_length.simps)
  moreover have "round_to_53_bits (- 9007199254740992) = - 9007199254740992"
    by (simp add: round_to_53_bits_def Let_def bit_length.simps)
  ultimately show ?thesis
    by (elim disjE) simp_all
qed

lemma int32_of_float64_of_int:
  fixes l :: "32 word"
  shows "int32_of_float64 (float64_of_int (sint l)) = l"
proof -
  have "- (2 ^ 31) \<le> sint l" and "sint l < 2 ^ 31"
    using sint_ge [of l] sint_lt [of l] by simp_all
  then have "\<bar>sint l\<bar> \<le> 2 ^ 53" by simp
  then have r: "round_to_53_bits (sint l) = sint l" by (rule round_to_53_bits_exact)
  have "int32_of_float64 (float64_of_int (sint l)) =
          word_of_int (go_trunc (of_int (round_to_53_bits (sint l))))"
    by (simp only: int32_of_float64_def float64_of_int_def float64.case)
  also have "\<dots> = word_of_int (sint l)"
    by (simp only: r go_trunc_of_int)
  also have "\<dots> = l"
    by simp
  finally show ?thesis .
qed

lemma int_of_float64_of_int:
  fixes l :: "64 word"
  assumes "\<bar>sint l\<bar> \<le> 2 ^ 53"
  shows "int_of_float64 (float64_of_int (sint l)) = l"
proof -
  have r: "round_to_53_bits (sint l) = sint l" using assms by (rule round_to_53_bits_exact)
  have "int_of_float64 (float64_of_int (sint l)) =
          word_of_int (go_trunc (of_int (round_to_53_bits (sint l))))"
    by (simp only: int_of_float64_def float64_of_int_def float64.case)
  also have "\<dots> = word_of_int (sint l)"
    by (simp only: r go_trunc_of_int)
  also have "\<dots> = l"
    by simp
  finally show ?thesis .
qed

subsection \<open>Entries the loop accepts\<close>

lemma innerMessage_members_cases:
  assumes "(k, v) \<in> set (innerMessage_members m)"
  shows "(k, v) = (''version'', GoString (Version m))
      \<or> (k, v) = (''host'', GoString (Host m))
      \<or> (k, v) = (''short_message'', GoString (Short m))
      \<or> (k, v) = (''full_message'', GoString (Full m))
      \<or> (k, v) = (''timestamp'', GoFloat64 (TimeUnix m))
      \<or> (k, v) = (''level'', GoFloat64 (float64_of_int (sint (Level m))))
      \<or> (k, v) = (''facility'', GoString (Facility m))
      \<or> (k, v) = (''file'', GoString (File m))
      \<or> (k, v) = (''line'', GoFloat64 (float64_of_int (sint (Line m))))"
  using assms by (simp add: innerMessage_members_def)

lemma member_body_returns:
  assumes "(k, v) \<in> set (innerMessage_members m)"
  shows "\<exists>m'. range_body m1 k v = Return m'"
  using innerMessage_members_cases [OF assms]
  by (elim disjE) (simp_all add: range_body_def assert_string_def assert_float64_def)

lemma underscore_body_returns:
  assumes "k \<noteq> []" and "hd k = CHR ''_''"
  shows "range_body m1 k v = Return (m1\<lparr>Extra := AList.update k v (Extra m1)\<rparr>)"
  using assms by (cases k) (simp_all add: range_body_def)

lemma member_key_fixed:
  assumes "(k, v) \<in> set (innerMessage_members m)"
  shows "k \<in> set fixed_keys"
  using innerMessage_members_cases [OF assms]
  by (elim disjE) (simp_all add: fixed_keys_def)

subsection \<open>Decoding what \<open>MarshalJSON\<close> wrote\<close>

text \<open>
  A message whose extension keys are distinct and all begin with \<open>_\<close>, encoded by
  \<open>MarshalJSON\<close> and decoded by \<open>UnmarshalJSON\<close> into any message \<open>m0\<close>, in any order of
  the \<open>range\<close> loop: the loop ends without a panic, every fixed field holds what the body
  stores for the member that was written, and the extension map holds the entries of the
  encoded message over those \<open>m0\<close> had.
\<close>

lemma decode_encode:
  assumes enc: "MarshalJSON m = Return (Inr data)"
    and dist: "distinct (map fst (Extra m))"
    and keys: "\<forall>k \<in> fst ` set (Extra m). k \<noteq> [] \<and> hd k = CHR ''_''"
    and perm: "\<forall>i. mset (order i) = mset i"
  shows "\<exists>m'. UnmarshalJSON order m0 data = Return (None, m')
           \<and> (\<forall>(k, v) \<in> set (innerMessage_members m). stored k v = Some (field k m'))
           \<and> (\<forall>k. map_of (Extra m') k =
                  (if k \<in> fst ` set (Extra m) then map_of (Extra m) k else map_of (Extra m0) k))
           \<and> (distinct (map fst (Extra m0)) \<longrightarrow> distinct (map fst (Extra m')))"
proof -
  define ex where "ex = sort_key fst (Extra m)"
  define kvs where "kvs = innerMessage_members m @ ex"
  have data: "data = json_object kvs"
    using MarshalJSON_Return(1) [OF enc] by (simp add: kvs_def ex_def)
  have ex_set: "set ex = set (Extra m)"
    by (simp add: ex_def)
  have ex_dist: "distinct (map fst ex)"
  proof -
    have "mset (map fst ex) = mset (map fst (Extra m))"
      by (simp add: ex_def)
    then show ?thesis
      using dist by (metis mset_eq_imp_distinct_iff)
  qed
  have ex_map: "map_of ex = map_of (Extra m)"
    using ex_dist dist ex_set by (simp add: map_of_inject_set)
  have disjoint: "fst ` set (innerMessage_members m) \<inter> fst ` set ex = {}"
  proof -
    have "hd k \<noteq> CHR ''_''" if "k \<in> fst ` set (innerMessage_members m)" for k
      using that fixed_key_hd(1) member_key_fixed by fastforce
    then show ?thesis
      using keys ex_set by fastforce
  qed
  have "distinct (map fst (innerMessage_members m))"
    by (simp add: innerMessage_members_keys)
  then have kvs_dist: "distinct (map fst kvs)"
    using ex_dist disjoint unfolding kvs_def
    by (simp only: map_append distinct_append set_map simp_thms)
  have parsed: "json_Unmarshal data = Inr kvs"
    by (simp add: data json_Unmarshal_json_object store_members_distinct [OF kvs_dist])
  define xs where "xs = order kvs"
  have xs_mset: "mset xs = mset kvs"
    using perm by (simp add: xs_def)
  then have xs_set: "set xs = set kvs"
    by (rule mset_eq_setD)
  have xs_dist: "distinct (map fst xs)"
  proof -
    have "mset (map fst xs) = mset (map fst kvs)"
      using xs_mset by (metis mset_map)
    then show ?thesis
      using kvs_dist by (metis mset_eq_imp_distinct_iff)
  qed
  have xs_map: "map_of xs = map_of kvs"
    using xs_dist kvs_dist xs_set by (simp add: map_of_inject_set)
  have "\<forall>x \<in> set xs. \<forall>m1. \<exists>m'. range_body m1 (fst x) (snd x) = Return m'"
  proof (intro ballI allI)
    fix x m1
    assume "x \<in> set xs"
    then consider "x \<in> set (innerMessage_members m)" | "x \<in> set (Extra m)"
      using xs_set ex_set by (auto simp: kvs_def)
    then show "\<exists>m'. range_body m1 (fst x) (snd x) = Return m'"
    proof cases
      case 1
      then show ?thesis
        using member_body_returns [of "fst x" "snd x" m m1] by simp
    next
      case 2
      then have "fst x \<noteq> []" and "hd (fst x) = CHR ''_''"
        using keys by auto
      then show ?thesis
        using underscore_body_returns by blast
    qed
  qed
  then obtain m' where loop: "range_loop m0 xs = Return m'"
    using range_loop_succeeds by blast
  have run: "UnmarshalJSON order m0 data = Return (None, m')"
    using parsed loop by (simp add: UnmarshalJSON_def xs_def)
  have fields: "\<forall>(k, v) \<in> set (innerMessage_members m). stored k v = Some (field k m')"
  proof (intro ballI, clarify)
    fix k v
    assume kv: "(k, v) \<in> set (innerMessage_members m)"
    then have "(k, v) \<in> set xs"
      using xs_set by (simp add: kvs_def)
    then show "stored k v = Some (field k m')"
      using range_loop_stores [OF loop xs_dist] member_key_fixed [OF kv] by simp
  qed
  have extra: "map_of (Extra m') k =
      (if k \<in> fst ` set (Extra m) then map_of (Extra m) k else map_of (Extra m0) k)" for k
  proof (cases "k \<in> fst ` set (Extra m)")
    case True
    then have "hd k = CHR ''_''" and "k \<in> fst ` set xs"
      using keys xs_set ex_set by (auto simp: kvs_def)
    moreover have "k \<notin> fst ` set (innerMessage_members m)"
      using True disjoint ex_set by auto
    then have "map_of (innerMessage_members m) k = None"
      by (simp add: map_of_eq_None_iff)
    then have "map_of kvs k = map_of (Extra m) k"
      by (simp add: kvs_def map_add_def ex_map)
    ultimately show ?thesis
      using range_loop_Extra [OF loop xs_dist, of k] True xs_map by simp
  next
    case False
    have "\<not> (hd k = CHR ''_'' \<and> k \<in> fst ` set xs)"
    proof
      assume a: "hd k = CHR ''_'' \<and> k \<in> fst ` set xs"
      then have "k \<in> fst ` set (innerMessage_members m)"
        using False xs_set ex_set by (auto simp: kvs_def)
      then have "hd k \<noteq> CHR ''_''"
        using fixed_key_hd(1) member_key_fixed by fastforce
      then show False using a by simp
    qed
    then show ?thesis
      using range_loop_Extra [OF loop xs_dist, of k] False by auto
  qed
  have "distinct (map fst (Extra m0)) \<longrightarrow> distinct (map fst (Extra m'))"
    using range_loop_Extra_distinct [OF loop] by simp
  then show ?thesis
    using run fields extra by blast
qed

subsection \<open>The sample message, encoded and decoded\<close>

lemma sint_sample_numerals:
  "sint (42 :: 64 word) = 42" "sint (6 :: 32 word) = 6"
  "sint (9007199254740993 :: 64 word) = 9007199254740993"
  by simp_all

lemma round_to_53_bits_samples:
  "round_to_53_bits 42 = 42" "round_to_53_bits 6 = 6"
  "round_to_53_bits 9007199254740993 = 9007199254740992"
  by (simp_all add: round_to_53_bits_def Let_def bit_length.simps)

lemma go_trunc_samples:
  "go_trunc 42 = 42" "go_trunc 6 = 6" "go_trunc 9007199254740992 = 9007199254740992"
  by (simp_all add: go_trunc_def)

lemma range_loop_sample:
  "range_loop zero_message
     [(''version'', GoString ''1.0''), (''host'', GoString ''web1''),
      (''short_message'', GoString ''hello''), (''full_message'', GoString []),
      (''timestamp'', GoFloat64 (Finite (3 / 2))), (''level'', GoFloat64 (Finite 6)),
      (''facility'', GoString ''app''), (''file'', GoString ''main.go''),
      (''line'', GoFloat64 (Finite n))] =
   Return (sample_message\<lparr>Line := word_of_int (go_trunc n)\<rparr>)"
  by (simp add: range_body_def assert_string_def assert_float64_def zero_message_def
      sample_message_def int32_of_float64_def int_of_float64_def go_trunc_samples)


subsection \<open>Round trip of the fixed fields\<close>

text \<open>
  Claim C4, amended. A message with no extension fields whose encoding succeeds and whose
  line number is at most \<open>2 ^ 53\<close> in absolute value: decoding the encoded text, into any
  message and in any order of the \<open>range\<close> loop, returns \<open>nil\<close> and leaves all nine fixed
  fields equal to those of the encoded message. The bound is there because the decoder reads
  every JSON number as a \<open>float64\<close> and \<open>UnmarshalJSON\<close> converts it back with
  \<open>int(v.(float64))\<close>.
\<close>

theorem decode_encode_fixed_fields:
  assumes enc: "MarshalJSON m = Return (Inr data)"
    and empty: "Extra m = []"
    and line: "\<bar>sint (Line m)\<bar> \<le> 2 ^ 53"
    and perm: "\<forall>i. mset (order i) = mset i"
  shows "\<exists>m'. UnmarshalJSON order m0 data = Return (None, m')
           \<and> Version m' = Version m \<and> Host m' = Host m \<and> Short m' = Short m
           \<and> Full m' = Full m \<and> TimeUnix m' = TimeUnix m \<and> Level m' = Level m
           \<and> Facility m' = Facility m \<and> File m' = File m \<and> Line m' = Line m"
proof -
  obtain m' where run: "UnmarshalJSON order m0 data = Return (None, m')"
    and fields: "\<forall>(k, v) \<in> set (innerMessage_members m). stored k v = Some (field k m')"
    using decode_encode [OF enc _ _ perm, of m0] empty by auto
  have f: "stored k v = Some (field k m')" if "(k, v) \<in> set (innerMessage_members m)" for k v
    using fields that by blast
  have "Version m' = Version m"
    using f [of "''version''" "GoString (Version m)"]
    by (simp add: innerMessage_members_def stored_def field_def)
  moreover have "Host m' = Host m"
    using f [of "''host''" "GoString (Host m)"]
    by (simp add: innerMessage_members_def stored_def field_def)
  moreover have "Short m' = Short m"
    using f [of "''short_message''" "GoString (Short m)"]
    by (simp add: innerMessage_members_def stored_def field_def)
  moreover have "Full m' = Full m"
    using f [of "''full_message''" "GoString (Full m)"]
    by (simp add: innerMessage_members_def stored_def field_def)
  moreover have "TimeUnix m' = TimeUnix m"
    using f [of "''timestamp''" "GoFloat64 (TimeUnix m)"]
    by (simp add: innerMessage_members_def stored_def field_def)
  moreover have "Level m' = Level m"
    using f [of "''level''" "GoFloat64 (float64_of_int (sint (Level m)))"]
    by (simp add: innerMessage_members_def stored_def field_def int32_of_float64_of_int)
  moreover have "Facility m' = Facility m"
    using f [of "''facility''" "GoString (Facility m)"]
    by (simp add: innerMessage_members_def stored_def field_def)
  moreover have "File m' = File m"
    using f [of "''file''" "GoString (File m)"]
    by (simp add: innerMessage_members_def stored_def field_def)
  moreover have "Line m' = Line m"
    using f [of "''line''" "GoFloat64 (float64_of_int (sint (Line m)))"]
    by (simp add: innerMessage_members_def stored_def field_def
        int_of_float64_of_int [OF line])
  ultimately show ?thesis
    using run by blast
qed

text \<open>
  The claim as stated fails at the line number \<open>2 ^ 53 + 1 = 9007199254740993\<close>: it is written
  in full, read back as the \<open>float64\<close> 9007199254740992 and stored as that.
\<close>

theorem decode_encode_line_counterexample:
  "MarshalJSON (sample_message\<lparr>Line := 9007199254740993\<rparr>) =
     Return (Inr (json_object (innerMessage_members (sample_message\<lparr>Line := 9007199254740993\<rparr>))))
   \<and> Extra (sample_message\<lparr>Line := 9007199254740993\<rparr>) = []
   \<and> UnmarshalJSON list_order zero_message
         (json_object (innerMessage_members (sample_message\<lparr>Line := 9007199254740993\<rparr>))) =
       Return (None, sample_message\<lparr>Line := 9007199254740992\<rparr>)
   \<and> Line (sample_message\<lparr>Line := 9007199254740992\<rparr>) \<noteq>
       Line (sample_message\<lparr>Line := 9007199254740993\<rparr>)"
proof -
  let ?m = "sample_message\<lparr>Line := 9007199254740993\<rparr>"
  have members: "innerMessage_members ?m =
     [(''version'', GoString ''1.0''), (''host'', GoString ''web1''),
      (''short_message'', GoString ''hello''), (''full_message'', GoString []),
      (''timestamp'', GoFloat64 (Finite (3 / 2))), (''level'', GoFloat64 (Finite 6)),
      (''facility'', GoString ''app''), (''file'', GoString ''main.go''),
      (''line'', GoFloat64 (Finite 9007199254740992))]"
    by (simp add: innerMessage_members_def sample_message_def float64_of_int_def
        sint_sample_numerals round_to_53_bits_samples)
  have enc: "MarshalJSON ?m = Return (Inr (json_object (innerMessage_members ?m)))"
    by (simp add: MarshalJSON_def marshal_innerMessage_def sample_message_def)
  have ex: "Extra ?m = []"
    by (simp add: sample_message_def)
  have "distinct (map fst (innerMessage_members ?m))"
    by (simp add: innerMessage_members_keys)
  then have parsed: "json_Unmarshal (json_object (innerMessage_members ?m)) =
                 Inr (innerMessage_members ?m)"
    by (simp add: json_Unmarshal_json_object store_members_distinct)
  have dec: "UnmarshalJSON list_order zero_message (json_object (innerMessage_members ?m)) =
               Return (None, sample_message\<lparr>Line := 9007199254740992\<rparr>)"
  proof -
    have "range_loop zero_message (innerMessage_members ?m) =
            Return (sample_message\<lparr>Line := 9007199254740992\<rparr>)"
      unfolding members range_loop_sample by (simp add: go_trunc_samples)
    then show ?thesis
      unfolding UnmarshalJSON_def parsed by (simp add: list_order_def)
  qed
  have ne: "Line (sample_message\<lparr>Line := 9007199254740992\<rparr>) \<noteq> Line ?m"
    by simp
  show ?thesis
    using enc ex dec ne by (intro conjI)
qed

text \<open>
  The sample message, decoded into the zero message with the loop running backwards.
\<close>

theorem decode_encode_fixed_fields_witness:
  "MarshalJSON sample_message =
     Return (Inr (json_object (innerMessage_members sample_message)))
   \<and> Extra sample_message = []
   \<and> \<bar>sint (Line sample_message)\<bar> \<le> 2 ^ 53
   \<and> (\<forall>i. mset (rev i) = mset i)
   \<and> (\<exists>m'. UnmarshalJSON rev zero_message
               (json_object (innerMessage_members sample_message)) = Return (None, m')
          \<and> Version m' = ''1.0'' \<and> Host m' = ''web1'' \<and> Short m' = ''hello''
          \<and> Full m' = [] \<and> TimeUnix m' = Finite (3 / 2) \<and> Level m' = 6
          \<and> Facility m' = ''app'' \<and> File m' = ''main.go'' \<and> Line m' = 42)"
proof -
  have h1: "MarshalJSON sample_message =
              Return (Inr (json_object (innerMessage_members sample_message)))"
    by (simp add: MarshalJSON_def marshal_innerMessage_def sample_message_def)
  have h2: "Extra sample_message = []"
    by (simp add: sample_message_def)
  have h3: "\<bar>sint (Line sample_message)\<bar> \<le> 2 ^ 53"
    by (simp add: sample_message_def)
  have h4: "\<forall>i. mset (rev i) = mset i"
    by simp
  have "\<exists>m'. UnmarshalJSON rev zero_message
               (json_object (innerMessage_members sample_message)) = Return (None, m')
          \<and> Version m' = ''1.0'' \<and> Host m' = ''web1'' \<and> Short m' = ''hello''
          \<and> Full m' = [] \<and> TimeUnix m' = Finite (3 / 2) \<and> Level m' = 6
          \<and> Facility m' = ''app'' \<and> File m' = ''main.go'' \<and> Line m' = 42"
    using decode_encode_fixed_fields [OF h1 h2 h3 h4, of zero_message]
    by (simp add: sample_message_def)
  then show ?thesis
    using h1 h2 h3 h4 by (intro conjI)
qed

subsection \<open>Round trip of the extension fields\<close>




subsection \<open>Input that does not decode\<close>

lemma range_body_wrong_type:
  assumes "k \<in> {''version'', ''host'', ''short_message'', ''full_message'', ''facility'', ''file''}
             \<and> (\<forall>s. v \<noteq> GoString s)
           \<or> k \<in> {''timestamp'', ''level'', ''line''} \<and> (\<forall>f. v \<noteq> GoFloat64 f)"
  shows "\<exists>p. range_body m k v = Panic p"
proof -
  have s: "assert_string v = Panic (InterfaceConversion ''string'')" if "\<forall>s. v \<noteq> GoString s"
    using that by (cases v) (simp_all add: assert_string_def)
  have f: "assert_float64 v = Panic (InterfaceConversion ''float64'')" if "\<forall>f. v \<noteq> GoFloat64 f"
    using that by (cases v) (simp_all add: assert_float64_def)
  from assms show ?thesis
  proof (elim disjE conjE)
    assume "k \<in> {''version'', ''host'', ''short_message'', ''full_message'', ''facility'', ''file''}"
      and "\<forall>s. v \<noteq> GoString s"
    then show ?thesis
      using s by (auto simp: range_body_def)
  next
    assume "k \<in> {''timestamp'', ''level'', ''line''}" and "\<forall>f. v \<noteq> GoFloat64 f"
    then show ?thesis
      using f by (auto simp: range_body_def)
  qed
qed

lemma range_loop_permuted_panics:
  assumes "(k, v) \<in> set i" and "mset (order i) = mset i"
    and "\<forall>m. \<exists>p. range_body m k v = Panic p"
  shows "\<exists>p. range_loop m (order i) = Panic p"
proof -
  have "(k, v) \<in> set (order i)"
    using assms(1,2) by (metis mset_eq_setD)
  then show ?thesis
    using assms(3) by (rule range_loop_panics)
qed

text \<open>
  Claim C7, amended. For every order of the \<open>range\<close> loop: when \<open>json.Unmarshal\<close> rejects the
  input, \<open>UnmarshalJSON\<close> returns that error and leaves the message as it was; when the input
  is an object in which a string field (\<open>version\<close>, \<open>host\<close>, \<open>short_message\<close>,
  \<open>full_message\<close>, \<open>facility\<close>, \<open>file\<close>) holds a value that is not a string, or
  \<open>timestamp\<close>, \<open>level\<close> or \<open>line\<close> a value that is not a number, \<open>UnmarshalJSON\<close> neither
  succeeds nor returns an error: it panics.
\<close>

theorem UnmarshalJSON_failures:
  assumes perm: "\<forall>i. mset (order i) = mset i"
  shows "(\<forall>err. json_Unmarshal data = Inl err \<longrightarrow>
            UnmarshalJSON order m data = Return (Some err, m))
       \<and> (\<forall>i k v. json_Unmarshal data = Inr i \<longrightarrow> (k, v) \<in> set i \<longrightarrow>
            (k \<in> {''version'', ''host'', ''short_message'', ''full_message'', ''facility'',
                   ''file''} \<and> (\<forall>s. v \<noteq> GoString s)
             \<or> k \<in> {''timestamp'', ''level'', ''line''} \<and> (\<forall>f. v \<noteq> GoFloat64 f)) \<longrightarrow>
            (\<exists>p. UnmarshalJSON order m data = Panic p))"
proof (intro conjI allI impI)
  fix err
  assume "json_Unmarshal data = Inl err"
  then show "UnmarshalJSON order m data = Return (Some err, m)"
    by (simp add: UnmarshalJSON_def)
next
  fix i k v
  assume parsed: "json_Unmarshal data = Inr i" and mem: "(k, v) \<in> set i"
    and wrong: "k \<in> {''version'', ''host'', ''short_message'', ''full_message'', ''facility'',
                   ''file''} \<and> (\<forall>s. v \<noteq> GoString s)
             \<or> k \<in> {''timestamp'', ''level'', ''line''} \<and> (\<forall>f. v \<noteq> GoFloat64 f)"
  have "\<forall>m. \<exists>p. range_body m k v = Panic p"
    using range_body_wrong_type [OF wrong] by simp
  then obtain p where "range_loop m (order i) = Panic p"
    using range_loop_permuted_panics [OF mem] perm by blast
  then show "\<exists>p. UnmarshalJSON order m data = Panic p"
    using parsed by (simp add: UnmarshalJSON_def)
qed

text \<open>
  The claim as stated fails at the object \<open>{"host": 5}\<close>: the type assertion \<open>v.(string)\<close>
  panics, and no error is returned.
\<close>

theorem UnmarshalJSON_wrong_type_counterexample:
  "json_Unmarshal [LBrace, Key ''host'', Colon, Val (GoFloat64 (Finite 5)), RBrace] =
     Inr [(''host'', GoFloat64 (Finite 5))]
   \<and> UnmarshalJSON list_order zero_message
        [LBrace, Key ''host'', Colon, Val (GoFloat64 (Finite 5)), RBrace] =
      Panic (InterfaceConversion ''string'')"
  by (simp add: UnmarshalJSON_def json_Unmarshal_def parse_object_def store_members_def
      range_body_def assert_string_def list_order_def)

text \<open>
  An object that lacks its closing brace, and the object \<open>{"level": "info"}\<close>.
\<close>

theorem UnmarshalJSON_failures_witness:
  "(\<forall>i. mset (rev i) = mset i)
   \<and> UnmarshalJSON rev zero_message [LBrace, Key ''host'', Colon, Val (GoString ''web1'')] =
       Return (Some SyntaxError, zero_message)
   \<and> (\<exists>p. UnmarshalJSON rev zero_message
             [LBrace, Key ''level'', Colon, Val (GoString ''info''), RBrace] = Panic p)"
proof -
  have perm: "\<forall>i. mset (rev i) = mset i"
    by simp
  have bad: "json_Unmarshal [LBrace, Key ''host'', Colon, Val (GoString ''web1'')] =
               Inl SyntaxError"
    by (simp add: json_Unmarshal_def parse_object_def)
  have obj: "json_Unmarshal [LBrace, Key ''level'', Colon, Val (GoString ''info''), RBrace] =
               Inr [(''level'', GoString ''info'')]"
    by (simp add: json_Unmarshal_def parse_object_def store_members_def)
  have a: "UnmarshalJSON rev zero_message [LBrace, Key ''host'', Colon, Val (GoString ''web1'')] =
             Return (Some SyntaxError, zero_message)"
    using UnmarshalJSON_failures [OF perm, of _ zero_message] bad by blast
  have b: "\<exists>p. UnmarshalJSON rev zero_message
             [LBrace, Key ''level'', Colon, Val (GoString ''info''), RBrace] = Panic p"
    using UnmarshalJSON_failures [OF perm,
        of "[LBrace, Key ''level'', Colon, Val (GoString ''info''), RBrace]" zero_message] obj
    by simp
  show ?thesis
    using perm a b by (intro conjI)
qed

subsection \<open>The empty key\<close>

text \<open>
  Claim C10. An input that \<open>json.Unmarshal\<close> accepts as an object with the empty string among
  its keys, in any order of the \<open>range\<close> loop: \<open>UnmarshalJSON\<close> panics. At the empty key the
  body of the loop panics with an index out of range, whatever the message and the value.
\<close>

theorem UnmarshalJSON_empty_key:
  assumes parsed: "json_Unmarshal data = Inr i"
    and mem: "([], v) \<in> set i"
    and perm: "\<forall>i. mset (order i) = mset i"
  shows "(\<exists>p. UnmarshalJSON order m data = Panic p)
       \<and> (\<forall>m'. range_body m' [] v = Panic IndexOutOfRange)"
proof -
  have body: "\<forall>m'. range_body m' [] v = Panic IndexOutOfRange"
    by (simp add: range_body_def)
  then have "\<forall>m'. \<exists>p. range_body m' [] v = Panic p"
    by simp
  then obtain p where "range_loop m (order i) = Panic p"
    using range_loop_permuted_panics [OF mem] perm by blast
  then have "\<exists>p. UnmarshalJSON order m data = Panic p"
    using parsed by (simp add: UnmarshalJSON_def)
  then show ?thesis
    using body by simp
qed

text \<open>
  The object \<open>{"": null, "host": "web1"}\<close>, with the loop running backwards: the panic is the
  index out of range.
\<close>

theorem UnmarshalJSON_empty_key_witness:
  "json_Unmarshal [LBrace, Key [], Colon, Val GoNil, Comma,
                   Key ''host'', Colon, Val (GoString ''web1''), RBrace] =
     Inr [([], GoNil), (''host'', GoString ''web1'')]
   \<and> (\<forall>i. mset (rev i) = mset i)
   \<and> (\<exists>p. UnmarshalJSON rev zero_message
             [LBrace, Key [], Colon, Val GoNil, Comma,
              Key ''host'', Colon, Val (GoString ''web1''), RBrace] = Panic p)
   \<and> UnmarshalJSON rev zero_message
        [LBrace, Key [], Colon, Val GoNil, Comma,
         Key ''host'', Colon, Val (GoString ''web1''), RBrace] = Panic IndexOutOfRange"
proof -
  let ?data = "[LBrace, Key [], Colon, Val GoNil, Comma,
                Key ''host'', Colon, Val (GoString ''web1''), RBrace]"
  have parsed: "json_Unmarshal ?data = Inr [([], GoNil), (''host'', GoString ''web1'')]"
    by (simp add: json_Unmarshal_def parse_object_def store_members_def)
  have mem: "([], GoNil) \<in> set [([], GoNil), (''host'', GoString ''web1'')]"
    by simp
  have perm: "\<forall>i. mset (rev i) = mset i"
    by simp
  have a: "\<exists>p. UnmarshalJSON rev zero_message ?data = Panic p"
    using UnmarshalJSON_empty_key [OF parsed mem perm] by simp
  have b: "UnmarshalJSON rev zero_message ?data = Panic IndexOutOfRange"
    by (simp add: UnmarshalJSON_def parsed range_body_def assert_string_def)
  show ?thesis
    using parsed perm a b by (intro conjI)
qed

subsection \<open>An unknown compression type\<close>

lemma json_Marshal_cases:
  "(\<exists>err. json_Marshal render m = Return (Inl err))
   \<or> (\<exists>mBytes. json_Marshal render m = Return (Inr mBytes))"
proof (cases "MarshalJSON m")
  case (Return r)
  then show ?thesis
    by (cases r) (auto simp: json_Marshal_def split: option.splits)
next
  case (Panic p)
  then show ?thesis using MarshalJSON_no_panic by simp
qed

lemma json_Marshal_sample:
  "json_Marshal render sample_message =
     Return (Inr (render (json_object (innerMessage_members sample_message))))"
proof -
  have "MarshalJSON sample_message =
          Return (Inr (json_object (innerMessage_members sample_message)))"
    by (simp add: MarshalJSON_def marshal_innerMessage_def sample_message_def)
  then show ?thesis
    by (simp add: json_Marshal_def parse_object_json_object)
qed

text \<open>
  Claim C6, amended. A compression type that is none of \<open>CompressGzip\<close>, \<open>CompressZlib\<close> and
  \<open>NoCompress\<close>: \<open>WriteMessage\<close> writes nothing to the connection, and when the JSON encoding of
  the message succeeds it panics with "unknown compression type"; when the encoding fails,
  which is tested first, it returns the encoding error.
\<close>

theorem udp_WriteMessage_unknown_compression:
  assumes "compressionType w \<noteq> CompressGzip"
    and "compressionType w \<noteq> CompressZlib"
    and "compressionType w \<noteq> NoCompress"
  shows "snd (udp_WriteMessage render gzip zlib rnd w m wire0) = wire0
       \<and> ((\<exists>mBytes. json_Marshal render m = Return (Inr mBytes)
             \<and> fst (udp_WriteMessage render gzip zlib rnd w m wire0) =
                 Panic (UnknownCompressionType (compressionType w)))
          \<or> (\<exists>err. json_Marshal render m = Return (Inl err)
             \<and> fst (udp_WriteMessage render gzip zlib rnd w m wire0) = Return (Some err)))"
  using json_Marshal_cases [of render m] assms
  by (auto simp: udp_WriteMessage_def compress_stage_def)

text \<open>
  The claim as stated fails at the compression type 7 with a message whose extension map
  holds a channel: the call returns the error of \<open>json.Marshal\<close>, and the \<open>switch\<close> on the
  compression type is not reached.
\<close>

theorem udp_WriteMessage_encoding_error_first_counterexample:
  "(7 :: int) \<noteq> CompressGzip \<and> (7 :: int) \<noteq> CompressZlib \<and> (7 :: int) \<noteq> NoCompress
   \<and> udp_WriteMessage token_count_render storing_compressor storing_compressor
        counting_rand
        \<lparr>conn = accepting_conn, compressionType = 7, compressionLevel = 1\<rparr>
        (sample_message\<lparr>Extra := [(''_done'', GoChan)]\<rparr>) [] =
      (Return (Some (UnsupportedValue ''interface'')), [])"
  by (simp add: udp_WriteMessage_def json_Marshal_def MarshalJSON_def marshal_innerMessage_def
      marshal_map_def sample_message_def CompressGzip_def CompressZlib_def NoCompress_def)

text \<open>
  The compression type 7 with the sample message.
\<close>

theorem udp_WriteMessage_unknown_compression_witness:
  "(7 :: int) \<noteq> CompressGzip \<and> (7 :: int) \<noteq> CompressZlib \<and> (7 :: int) \<noteq> NoCompress
   \<and> udp_WriteMessage token_count_render storing_compressor storing_compressor
        counting_rand
        \<lparr>conn = accepting_conn, compressionType = 7, compressionLevel = 1\<rparr>
        sample_message [] =
      (Panic (UnknownCompressionType 7), [])"
proof -
  let ?w = "\<lparr>conn = accepting_conn, compressionType = 7, compressionLevel = 1\<rparr>"
  let ?render = "token_count_render"
  let ?run = "udp_WriteMessage ?render storing_compressor storing_compressor
        counting_rand ?w sample_message []"
  have h1: "compressionType ?w \<noteq> CompressGzip"
    and h2: "compressionType ?w \<noteq> CompressZlib"
    and h3: "compressionType ?w \<noteq> NoCompress"
    by (simp_all add: CompressGzip_def CompressZlib_def NoCompress_def)
  have "snd ?run = [] \<and> fst ?run = Panic (UnknownCompressionType 7)"
    using udp_WriteMessage_unknown_compression [OF h1 h2 h3,
        of ?render storing_compressor storing_compressor
           "counting_rand" sample_message "[]"]
    by (simp add: json_Marshal_sample)
  then have "?run = (Panic (UnknownCompressionType 7), [])"
    by (simp add: prod_eq_iff)
  then show ?thesis
    using h1 h2 h3 by simp
qed

subsection \<open>The response body of the HTTP transport\<close>

text \<open>
  When \<open>Post\<close> returns a response, its body is closed once and the error of \<open>Post\<close> is
  returned.
\<close>

lemma http_WriteMessage_closes_response:
  assumes "json_Marshal render m = Return (Inr mBytes)"
    and "client w (url w) mBytes = (Some response, err)"
  shows "http_WriteMessage render w m tr =
           (Return (map_option LibraryError err),
            tr @ [PostRequest (url w) mBytes, BodyClose response])"
  using assms by (simp add: http_WriteMessage_def)

text \<open>
  The copy that drops the response never closes a body.
\<close>

lemma http_WriteMessage_dropping_response_never_closes:
  "snd (http_WriteMessage_dropping_response render w m tr) = tr
   \<or> (\<exists>mBytes. snd (http_WriteMessage_dropping_response render w m tr) =
                  tr @ [PostRequest (url w) mBytes])"
  using json_Marshal_cases [of render m]
  by (auto simp: http_WriteMessage_dropping_response_def)

text \<open>
  Claim C8. \<open>Post\<close> fails and returns a \<open>nil\<close> response with its error \<open>err\<close>, here for the
  sample message and any URL: \<open>response.Body.Close()\<close> dereferences the \<open>nil\<close> response and
  the call panics, instead of returning the error. The request is the only event of the
  call: no body is closed.
\<close>

theorem http_WriteMessage_post_error:
  "http_WriteMessage render \<lparr>client = (\<lambda>u b. (None, err)), url = u\<rparr> sample_message tr =
   (Panic NilPointerDereference,
    tr @ [PostRequest u (render (json_object (innerMessage_members sample_message)))])"
  by (simp add: http_WriteMessage_def json_Marshal_sample)

end
